theory Spec2Isabelle
  imports Complex_Main "HOL-Library.AList"
begin

section \<open>JavaScript values, errors and the runtime\<close>

text \<open>
  The caching service stores and returns arbitrary JavaScript values. The fragment that
  the service itself inspects is modelled: it tests values for \<^verbatim>\<open>undefined\<close>, for
  \<^verbatim>\<open>null\<close> and for truthiness. Numbers held in the cache are integers here; time-to-live
  values are kept apart, as reals, because the service halves and scales them.
\<close>

datatype jsval =
    Undefined
  | Null
  | Bool bool
  | Num int
  | Str string
  | Obj "(string \<times> jsval) list"

text \<open>Truthiness, as \<^verbatim>\<open>if (value)\<close> and \<^verbatim>\<open>value ? a : b\<close> read it.\<close>

fun truthy :: "jsval \<Rightarrow> bool" where
  "truthy Undefined = False"
| "truthy Null = False"
| "truthy (Bool b) = b"
| "truthy (Num n) = (n \<noteq> 0)"
| "truthy (Str s) = (s \<noteq> [])"
| "truthy (Obj props) = True"

text \<open>
  A rejected promise or a thrown exception is a value: \<open>SyntaxError\<close> is what
  \<^verbatim>\<open>JSON.parse\<close> throws, \<open>Rejected\<close> is any failure of a caller-supplied operation,
  \<open>InvalidArgument\<close> is the error of the Redis client for a command with an
  \<^verbatim>\<open>undefined\<close> argument, and \<open>ReplyError\<close> is an error reply of Redis.
\<close>

datatype error = SyntaxError | Rejected string | InvalidArgument | ReplyError

text \<open>Reading an array by index: out of range, JavaScript yields \<^verbatim>\<open>undefined\<close>.\<close>

definition elemAt :: "jsval list \<Rightarrow> int \<Rightarrow> jsval" where
  "elemAt xs i = (if 0 \<le> i \<and> i < int (length xs) then xs ! nat i else Undefined)"

text \<open>\<^verbatim>\<open>Array.prototype.indexOf\<close>: the first position of an element, or \<open>-1\<close>.\<close>

fun indexOf :: "'a list \<Rightarrow> 'a \<Rightarrow> int" where
  "indexOf [] x = -1"
| "indexOf (y # ys) x =
     (if y = x then 0 else (let r = indexOf ys x in if r < 0 then -1 else r + 1))"

text \<open>
  The configuration service and the parts of the JavaScript runtime and of Redis that the
  service calls but does not define are parameters of the model:
  \<^item> \<open>cacheTtl\<close>, \<open>processTtl\<close>, \<open>poolLimit\<close>: \<^verbatim>\<open>getCacheTtl()\<close>, \<^verbatim>\<open>getProcessTtl()\<close>,
    \<^verbatim>\<open>getPoolLimit()\<close> of the configuration service;
  \<^item> \<open>jsonParse\<close>: \<^verbatim>\<open>JSON.parse\<close> on a text, \<open>None\<close> when it throws;
  \<^item> \<open>jsonStringify\<close>: \<^verbatim>\<open>JSON.stringify\<close> on a value other than \<^verbatim>\<open>undefined\<close>;
  \<^item> \<open>globMatch pattern key\<close>: whether Redis' \<^verbatim>\<open>KEYS pattern\<close> lists \<open>key\<close>;
  \<^item> \<open>esdtContractAddress\<close>: \<^verbatim>\<open>getEsdtContractAddress()\<close>.
\<close>

record env =
  cacheTtl :: real
  processTtl :: real
  poolLimit :: nat
  jsonParse :: "string \<Rightarrow> jsval option"
  jsonStringify :: "jsval \<Rightarrow> string"
  globMatch :: "string \<Rightarrow> string \<Rightarrow> bool"
  esdtContractAddress :: string

text \<open>
  \<^verbatim>\<open>JSON.parse(v)\<close> first turns its argument into text: \<^verbatim>\<open>null\<close> becomes the text
  \<^verbatim>\<open>null\<close>, a boolean or a number its literal, and these parse back to themselves;
  \<^verbatim>\<open>undefined\<close> and a plain object become texts that are not JSON.
\<close>

fun JSON_parse :: "env \<Rightarrow> jsval \<Rightarrow> error + jsval" where
  "JSON_parse e (Str s) = (case jsonParse e s of Some v \<Rightarrow> Inr v | None \<Rightarrow> Inl SyntaxError)"
| "JSON_parse e Null = Inr Null"
| "JSON_parse e (Bool b) = Inr (Bool b)"
| "JSON_parse e (Num n) = Inr (Num n)"
| "JSON_parse e Undefined = Inl SyntaxError"
| "JSON_parse e (Obj props) = Inl SyntaxError"

text \<open>\<^verbatim>\<open>JSON.stringify(undefined)\<close> is \<^verbatim>\<open>undefined\<close>, not a text.\<close>

definition JSON_stringify :: "env \<Rightarrow> jsval \<Rightarrow> string option" where
  "JSON_stringify e v = (if v = Undefined then None else Some (jsonStringify e v))"

section \<open>The state the service works on\<close>

text \<open>
  The commands handed to the Redis client, in the order they were handed over. The value
  and the expiry of a \<^verbatim>\<open>SET\<close> are arguments that can be \<^verbatim>\<open>undefined\<close> (\<open>None\<close>).
\<close>

datatype command =
    GET string
  | SETEX string "string option" "real option"
  | DEL string
  | MGET "string list"
  | KEYS string
  | MULTI "command list"

text \<open>
  \<^item> \<open>localCache\<close>: the process-local cache behind \<^verbatim>\<open>LocalCacheService\<close>, a value and
    the time-to-live it was stored with, per key;
  \<^item> \<open>remote\<close>: the Redis key space, a text and its expiry per key, as an association
    list (\<^verbatim>\<open>KEYS\<close> enumerates it);
  \<^item> \<open>commands\<close>: the commands handed to the Redis client so far;
  \<^item> \<open>pendingPromises\<close>: the table of in-flight operations, a promise per key;
  \<^item> \<open>randoms\<close>, \<open>drawn\<close>: the results \<^verbatim>\<open>Math.random()\<close> gives, and how many were taken;
  \<^item> \<open>upstream\<close>: whatever the caller-supplied handlers read and change.
  Expiry needs a clock and is not modelled: nothing expires during a call. Redis is
  modelled as a store that is always reached.

  Calls run one at a time. A promise in the table is in one of two situations. It
  belongs to an operation that another caller started and that has not finished:
  awaiting it gives the outcome it settles with, \<open>Settles r\<close>. Or it belongs to an
  operation that is in flight in the call that is running, \<open>InFlight\<close>: it settles when
  that operation ends, so a call that awaits it from inside the operation never returns.
\<close>

datatype pending = Settles "error + jsval" | InFlight

record 'x world =
  localCache :: "string \<rightharpoonup> (jsval \<times> real)"
  remote :: "(string \<times> string \<times> real) list"
  commands :: "command list"
  pendingPromises :: "string \<rightharpoonup> pending"
  randoms :: "nat \<Rightarrow> real"
  drawn :: nat
  upstream :: 'x

text \<open>
  An \<open>action\<close> returns or throws. A \<open>suspended\<close> computation awaits promises of the
  table, so it may never return: that is the value \<open>None\<close>. An \<open>operation\<close> is a function
  that returns a promise: \<open>onCall\<close> is what calling it does before it returns the promise,
  \<open>onAwait\<close> what happens from then until the promise settles, with the outcome.
\<close>

type_synonym ('x, 'a) action = "'x world \<Rightarrow> (error + 'a) \<times> 'x world"

type_synonym ('x, 'a) suspended = "'x world \<Rightarrow> ((error + 'a) \<times> 'x world) option"

record 'x operation =
  onCall :: "'x world \<Rightarrow> 'x world"
  onAwait :: "('x, jsval) suspended"

subsection \<open>The Redis client\<close>

definition sent :: "command \<Rightarrow> 'x world \<Rightarrow> 'x world" where
  "sent c w = w\<lparr>commands := commands w @ [c]\<rparr>"

text \<open>The reply for one key: its text, or \<^verbatim>\<open>null\<close> for Redis' nil.\<close>

definition reply :: "'x world \<Rightarrow> string \<Rightarrow> jsval" where
  "reply w key = (case map_of (remote w) key of None \<Rightarrow> Null | Some (s, t) \<Rightarrow> Str s)"

text \<open>
  \<^verbatim>\<open>async () => await this.asyncGet(key)\<close>: the call hands the command to the client,
  and the promise settles with the reply.
\<close>

definition asyncGet :: "string \<Rightarrow> 'x operation" where
  "asyncGet key = \<lparr>onCall = sent (GET key), onAwait = (\<lambda>w. Some (Inr (reply w key), w))\<rparr>"

definition asyncMGet :: "string list \<Rightarrow> 'x world \<Rightarrow> jsval list \<times> 'x world" where
  "asyncMGet keys w = (map (reply w) keys, sent (MGET keys) w)"

definition asyncDel :: "string \<Rightarrow> 'x world \<Rightarrow> 'x world" where
  "asyncDel key w = sent (DEL key) (w\<lparr>remote := AList.delete key (remote w)\<rparr>)"

definition asyncKeys :: "env \<Rightarrow> string \<Rightarrow> 'x world \<Rightarrow> string list \<times> 'x world" where
  "asyncKeys e pattern w = (filter (globMatch e pattern) (map fst (remote w)), sent (KEYS pattern) w)"

text \<open>
  What a command does to the key space. Two refusals leave it as it is. The client
  (node_redis 3) does not send a command that has an \<^verbatim>\<open>undefined\<close> argument. Redis
  answers a \<^verbatim>\<open>SET\<close> whose expiry is not a positive whole number with an error.
\<close>

definition validExpiry :: "real \<Rightarrow> bool" where
  "validExpiry ttl = (0 < ttl \<and> ttl = of_int \<lfloor>ttl\<rfloor>)"

fun applyCommand :: "command \<Rightarrow> (string \<times> string \<times> real) list \<Rightarrow> (string \<times> string \<times> real) list" where
  "applyCommand (SETEX key (Some s) (Some ttl)) r =
     (if validExpiry ttl then AList.update key (s, ttl) r else r)"
| "applyCommand (DEL key) r = AList.delete key r"
| "applyCommand c r = r"

text \<open>
  A single \<^verbatim>\<open>SET\<close>: its promise rejects when the client or Redis refuses the command.
\<close>

definition asyncSet :: "string \<Rightarrow> string option \<Rightarrow> real \<Rightarrow> 'x world \<Rightarrow> (error + unit) \<times> 'x world" where
  "asyncSet key s ttl w =
     (let c = SETEX key s (Some ttl);
          w1 = sent c (w\<lparr>remote := applyCommand c (remote w)\<rparr>)
      in if s = None then (Inl InvalidArgument, w1)
         else if validExpiry ttl then (Inr (), w1)
         else (Inl ReplyError, w1))"

text \<open>
  A \<^verbatim>\<open>MULTI\<close> block: the commands that are not refused take effect in their order, and
  the promise of \<^verbatim>\<open>exec\<close> resolves also when a command of the block was refused.
\<close>

definition asyncMulti :: "command list \<Rightarrow> 'x world \<Rightarrow> 'x world" where
  "asyncMulti cs w = sent (MULTI cs) (w\<lparr>remote := fold applyCommand cs (remote w)\<rparr>)"

subsection \<open>The local cache\<close>

text \<open>
  Modelled from the spec: \<^verbatim>\<open>LocalCacheService\<close> is not among the sources. The spec gives
  its contract: \<^verbatim>\<open>get(key) -> value | absent\<close>, \<^verbatim>\<open>set(key, value, ttl) -> value\<close>,
  \<^verbatim>\<open>delete(key) -> void\<close>, with no error conditions.
\<close>

definition getCacheValue :: "'x world \<Rightarrow> string \<Rightarrow> jsval" where
  "getCacheValue w key = (case localCache w key of None \<Rightarrow> Undefined | Some (v, t) \<Rightarrow> v)"

definition setCacheValue :: "string \<Rightarrow> jsval \<Rightarrow> real \<Rightarrow> 'x world \<Rightarrow> 'x world" where
  "setCacheValue key v ttl w = w\<lparr>localCache := (localCache w)(key \<mapsto> (v, ttl))\<rparr>"

definition deleteCacheKey :: "string \<Rightarrow> 'x world \<Rightarrow> 'x world" where
  "deleteCacheKey key w = w\<lparr>localCache := (localCache w)(key := None)\<rparr>"

section \<open>The caching service\<close>

subsection \<open>Single keys\<close>

text \<open>
  A time-to-live parameter with a default (\<^verbatim>\<open>ttl: number = getCacheTtl()\<close>) is an
  option: \<open>None\<close> is \<^verbatim>\<open>undefined\<close>, which selects the default.
\<close>

definition setCacheRemote :: "env \<Rightarrow> string \<Rightarrow> jsval \<Rightarrow> real option \<Rightarrow> ('x, jsval) action" where
  "setCacheRemote e key v ttl w =
     (case asyncSet key (JSON_stringify e v) (case ttl of None \<Rightarrow> cacheTtl e | Some t \<Rightarrow> t) w of
        (Inl err, w1) \<Rightarrow> (Inl err, w1)
      | (Inr u, w1) \<Rightarrow> (Inr v, w1))"

text \<open>
  \<^verbatim>\<open>executeWithPendingPromise\<close>: an entry of the table is a promise, which is truthy, so
  the test \<^verbatim>\<open>if (pendingGetRemote)\<close> asks whether the key has an entry, and the entry is
  awaited. Otherwise the operation is called, the promise it returns is put in the table
  under the key and awaited, and the \<^verbatim>\<open>finally\<close> block deletes the entry on both
  outcomes.
\<close>

definition executeWithPendingPromise :: "string \<Rightarrow> 'x operation \<Rightarrow> ('x, jsval) suspended" where
  "executeWithPendingPromise key promise w =
     (case pendingPromises w key of
        Some (Settles r) \<Rightarrow> Some (r, w)
      | Some InFlight \<Rightarrow> None
      | None \<Rightarrow>
          (let w1 = onCall promise w;
               w2 = w1\<lparr>pendingPromises := (pendingPromises w1)(key \<mapsto> InFlight)\<rparr>
           in case onAwait promise w2 of
                None \<Rightarrow> None
              | Some (r, w3) \<Rightarrow>
                  Some (r, w3\<lparr>pendingPromises := (pendingPromises w3)(key := None)\<rparr>)))"

definition getCacheRemote :: "env \<Rightarrow> string \<Rightarrow> ('x, jsval) suspended" where
  "getCacheRemote e key w =
     (case executeWithPendingPromise (''caching:get:'' @ key) (asyncGet key) w of
        None \<Rightarrow> None
      | Some (Inl err, w') \<Rightarrow> Some (Inl err, w')
      | Some (Inr response, w') \<Rightarrow>
          Some (if response = Undefined then (Inr Undefined, w') else (JSON_parse e response, w')))"

definition setCacheLocal :: "env \<Rightarrow> string \<Rightarrow> jsval \<Rightarrow> real option \<Rightarrow> 'x world \<Rightarrow> 'x world" where
  "setCacheLocal e key v ttl w =
     setCacheValue key v (case ttl of None \<Rightarrow> cacheTtl e | Some t \<Rightarrow> t) w"

definition getCacheLocal :: "'x world \<Rightarrow> string \<Rightarrow> jsval" where
  "getCacheLocal w key = getCacheValue w key"

definition getCache :: "env \<Rightarrow> string \<Rightarrow> ('x, jsval) suspended" where
  "getCache e key w =
     (let v = getCacheLocal w key
      in if truthy v then Some (Inr v, w) else getCacheRemote e key w)"

subsection \<open>Time-to-live jitter\<close>

text \<open>\<^verbatim>\<open>Math.random()\<close> takes the next draw; \<^verbatim>\<open>Math.round\<close> rounds halves up.\<close>

definition Math_random :: "'x world \<Rightarrow> real \<times> 'x world" where
  "Math_random w = (randoms w (drawn w), w\<lparr>drawn := drawn w + 1\<rparr>)"

definition Math_round :: "real \<Rightarrow> int" where
  "Math_round r = \<lfloor>r + 1 / 2\<rfloor>"

definition spreadTtl :: "real \<Rightarrow> 'x world \<Rightarrow> real \<times> 'x world" where
  "spreadTtl ttl w =
     (let threshold = 300; spread = 10
      in if ttl \<ge> threshold then
           (let (r1, w1) = Math_random w;
                sign = Math_round r1 * 2 - 1;
                (r2, w2) = Math_random w1;
                amount = \<lfloor>r2 * ((ttl * spread) / 100)\<rfloor>
            in (ttl + of_int (sign * amount), w2))
         else (ttl, w))"

text \<open>\<^verbatim>\<open>ttls.map(ttl => this.spreadTtl(ttl))\<close>, left to right.\<close>

fun spreadTtls :: "real list \<Rightarrow> 'x world \<Rightarrow> real list \<times> 'x world" where
  "spreadTtls [] w = ([], w)"
| "spreadTtls (t # ts) w =
     (let (t', w1) = spreadTtl t w;
          (ts', w2) = spreadTtls ts w1
      in (t' # ts', w2))"

subsection \<open>Chunks\<close>

text \<open>
  \<^verbatim>\<open>getChunks\<close> is a \<^verbatim>\<open>reduce\<close> over the array with the position \<open>current\<close> of each
  item: the item is pushed onto \<^verbatim>\<open>result[Math.floor(current / size)]\<close>, which is created
  empty when it is not there yet. The sizes in use are 100 and the default 25. (For a
  positive size the chunk index never exceeds the number of chunks built, so the array
  never gets a hole.)
\<close>

definition chunkStep :: "nat \<Rightarrow> 'a \<Rightarrow> 'a list list \<times> nat \<Rightarrow> 'a list list \<times> nat" where
  "chunkStep chunkSize item acc =
     (let (result, current) = acc;
          index = current div chunkSize;
          result1 = (if index < length result then result else result @ [[]])
      in (result1[index := result1 ! index @ [item]], current + 1))"

definition getChunks :: "'a list \<Rightarrow> nat \<Rightarrow> 'a list list" where
  "getChunks array chunkSize = fst (fold (chunkStep chunkSize) array ([], 0))"

subsection \<open>Batches\<close>

text \<open>
  \<^verbatim>\<open>chunkValues.map(value => value ? JSON.parse(value) : null)\<close>: the first text that does
  not parse throws.
\<close>

fun parseReplies :: "env \<Rightarrow> jsval list \<Rightarrow> error + jsval list" where
  "parseReplies e [] = Inr []"
| "parseReplies e (v # vs) =
     (case (if truthy v then JSON_parse e v else Inr Null) of
        Inl err \<Rightarrow> Inl err
      | Inr x \<Rightarrow> (case parseReplies e vs of Inl err \<Rightarrow> Inl err | Inr xs \<Rightarrow> Inr (x # xs)))"

fun batchGetChunks :: "env \<Rightarrow> string list list \<Rightarrow> jsval list \<Rightarrow> ('x, jsval list) action" where
  "batchGetChunks e [] result w = (Inr result, w)"
| "batchGetChunks e (chunkKeys # chunks) result w =
     (let (chunkValues, w1) = asyncMGet chunkKeys w
      in case parseReplies e chunkValues of
           Inl err \<Rightarrow> (Inl err, w1)
         | Inr parsed \<Rightarrow> batchGetChunks e chunks (result @ parsed) w1)"

definition batchGetCache :: "env \<Rightarrow> string list \<Rightarrow> ('x, jsval list) action" where
  "batchGetCache e keys w = batchGetChunks e (getChunks keys 100) [] w"

text \<open>Reading \<^verbatim>\<open>ttls[index]\<close>: \<open>None\<close> is \<^verbatim>\<open>undefined\<close>, out of range.\<close>

definition numAt :: "real list \<Rightarrow> nat \<Rightarrow> real option" where
  "numAt xs i = (if i < length xs then Some (xs ! i) else None)"

text \<open>
  \<^verbatim>\<open>batchSetCache\<close>: the time-to-live values are spread, every key is written to the
  local cache, and the keys, paired with their positions (the source builds an object
  with the key as its one property and the position as its value), are cut into chunks
  of 25 (\<^verbatim>\<open>getChunks\<close> is called with one argument; the 25 in the source is the second
  argument of \<^verbatim>\<open>map\<close>). Each chunk gives its \<^verbatim>\<open>set\<close> commands, where \<open>index\<close> is the position
  inside the chunk, and one \<^verbatim>\<open>MULTI\<close> sends them all. The parameter \<open>ttls\<close> is an array in
  every call, so the test \<^verbatim>\<open>if (!ttls)\<close> is false.
\<close>

definition batchSetCache :: "env \<Rightarrow> string list \<Rightarrow> jsval list \<Rightarrow> real list \<Rightarrow> 'x world \<Rightarrow> 'x world" where
  "batchSetCache e keys values ttls0 w =
     (let (ttls, w1) = spreadTtls ttls0 w;
          w2 = fold (\<lambda>(index, key) w. setCacheLocal e key (elemAt values (int index)) (numAt ttls index) w)
                 (enumerate 0 keys) w1;
          chunks = getChunks (map (\<lambda>(index, key). (key, index)) (enumerate 0 keys)) 25;
          sets = concat (map (\<lambda>chunk.
                   (let chunkKeys = map fst chunk;
                        chunkValues = map (\<lambda>element. elemAt values (int (snd element))) chunk
                    in map (\<lambda>(index, key).
                              SETEX key (JSON_stringify e (elemAt chunkValues (int index))) (numAt ttls index))
                         (enumerate 0 chunkKeys))) chunks)
      in asyncMulti sets w2)"

text \<open>
  \<^verbatim>\<open>asyncPool(limit, items, handler)\<close> of the library tiny-async-pool starts the
  handlers in the order of the items, at most \<open>limit\<close> of them unfinished at a time (one
  at a time when the limit is 0), resolves to their results in the order of the items,
  and rejects as soon as a handler rejects. Handlers that were started by then are not
  stopped; items after them are never started. The model runs each handler in one step
  and lets the handlers finish in the order they were started: when a handler rejects,
  the next \<open>limit - 1\<close> items are the ones already started, and their handlers still
  run on the upstream.
\<close>

fun asyncPool :: "nat \<Rightarrow> 'a list \<Rightarrow> ('a \<Rightarrow> 'x \<Rightarrow> (error + jsval) \<times> 'x) \<Rightarrow> 'x \<Rightarrow> (error + jsval list) \<times> 'x" where
  "asyncPool limit [] handler u = (Inr [], u)"
| "asyncPool limit (x # xs) handler u =
     (case handler x u of
        (Inl err, u1) \<Rightarrow> (Inl err, fold (\<lambda>y u. snd (handler y u)) (take (limit - 1) xs) u1)
      | (Inr v, u1) \<Rightarrow>
          (case asyncPool limit xs handler u1 of
             (Inl err, u2) \<Rightarrow> (Inl err, u2)
           | (Inr vs, u2) \<Rightarrow> (Inr (v # vs), u2)))"

text \<open>
  \<^verbatim>\<open>batchProcessChunk\<close>. The indices in \<open>missing\<close> are positions of \<open>cached\<close>, which is as
  long as \<open>keys\<close> and \<open>payload\<close>, so \<^verbatim>\<open>payload[index]\<close> is always in range.
\<close>

definition batchProcessChunk ::
  "env \<Rightarrow> 'a list \<Rightarrow> ('a \<Rightarrow> string) \<Rightarrow> ('a \<Rightarrow> 'x \<Rightarrow> (error + jsval) \<times> 'x) \<Rightarrow> real \<Rightarrow> bool
     \<Rightarrow> ('x, jsval list) action" where
  "batchProcessChunk e payload cacheKeyFunction handler ttl skipCache w =
     (let keys = map cacheKeyFunction payload
      in case (if skipCache then (Inr (replicate (length keys) Null), w)
               else batchGetCache e keys w) of
           (Inl err, w1) \<Rightarrow> (Inl err, w1)
         | (Inr cached, w1) \<Rightarrow>
             (let missing = filter (\<lambda>index. cached ! index = Null) [0..<length cached]
              in if missing \<noteq> [] then
                   (case asyncPool (poolLimit e) (map (\<lambda>index. payload ! index) missing) handler
                           (upstream w1) of
                      (Inl err, u) \<Rightarrow> (Inl err, w1\<lparr>upstream := u\<rparr>)
                    | (Inr values, u) \<Rightarrow>
                        (let w2 = w1\<lparr>upstream := u\<rparr>;
                             paramKeys = map snd (filter (\<lambda>(index, key). index \<in> set missing)
                                                    (enumerate 0 keys));
                             ttls = map (\<lambda>v. if truthy v then ttl else min ttl (processTtl e)) values;
                             w3 = batchSetCache e paramKeys values ttls w2
                         in (Inr (map (\<lambda>index. if index \<in> set missing
                                                then elemAt values (indexOf missing index)
                                                else elemAt cached (int index))
                                    [0..<length keys]), w3)))
                 else (Inr (map (\<lambda>index. elemAt cached (int index)) [0..<length keys]), w1)))"

text \<open>
  The retry loop of \<^verbatim>\<open>batchProcess\<close>: \<open>retries\<close> counts the failed attempts on the
  chunk, and the third one rethrows.
\<close>

function attemptChunk :: "nat \<Rightarrow> ('x, 'r) action \<Rightarrow> ('x, 'r) action" where
  "attemptChunk retries process w =
     (case process w of
        (Inr processedChunk, w1) \<Rightarrow> (Inr processedChunk, w1)
      | (Inl err, w1) \<Rightarrow>
          (if retries + 1 \<ge> 3 then (Inl err, w1) else attemptChunk (retries + 1) process w1))"
  by pat_completeness auto
termination
  by (relation "measure (\<lambda>(retries, process, w). 3 - retries)") auto

declare attemptChunk.simps [simp del]

fun processChunks :: "('c \<Rightarrow> ('x, 'r list) action) \<Rightarrow> 'c list \<Rightarrow> 'r list \<Rightarrow> ('x, 'r list) action" where
  "processChunks process [] result w = (Inr result, w)"
| "processChunks process (chunk # chunks) result w =
     (case attemptChunk 0 (process chunk) w of
        (Inl err, w1) \<Rightarrow> (Inl err, w1)
      | (Inr processedChunk, w1) \<Rightarrow> processChunks process chunks (result @ processedChunk) w1)"

definition batchProcess ::
  "env \<Rightarrow> 'a list \<Rightarrow> ('a \<Rightarrow> string) \<Rightarrow> ('a \<Rightarrow> 'x \<Rightarrow> (error + jsval) \<times> 'x) \<Rightarrow> real \<Rightarrow> bool
     \<Rightarrow> ('x, jsval list) action" where
  "batchProcess e payload cacheKeyFunction handler ttl skipCache w =
     processChunks (\<lambda>chunk. batchProcessChunk e chunk cacheKeyFunction handler ttl skipCache)
       (getChunks payload 100) [] w"

subsection \<open>Read-through of a single key\<close>

text \<open>
  \<^verbatim>\<open>getOrSetCache\<close>. The test \<^verbatim>\<open>if (!localTtl)\<close> holds for \<^verbatim>\<open>undefined\<close> and for 0.
\<close>

definition getOrSetCache ::
  "env \<Rightarrow> string \<Rightarrow> 'x operation \<Rightarrow> real \<Rightarrow> real option \<Rightarrow> ('x, jsval) suspended" where
  "getOrSetCache e key promise remoteTtl localTtl0 w =
     (let localTtl = (case localTtl0 of
                        None \<Rightarrow> remoteTtl / 2
                      | Some t \<Rightarrow> if t = 0 then remoteTtl / 2 else t);
          cachedValue = getCacheLocal w key
      in if cachedValue \<noteq> Undefined then Some (Inr cachedValue, w)
         else
           (case getCacheRemote e key w of
              None \<Rightarrow> None
            | Some (Inl err, w1) \<Rightarrow> Some (Inl err, w1)
            | Some (Inr cached, w1) \<Rightarrow>
                if cached \<noteq> Undefined \<and> cached \<noteq> Null
                then Some (Inr cached, setCacheLocal e key cached (Some localTtl) w1)
                else
                  (case executeWithPendingPromise (''caching:set:'' @ key) promise w1 of
                     None \<Rightarrow> None
                   | Some (Inl err, w2) \<Rightarrow> Some (Inl err, w2)
                   | Some (Inr v, w2) \<Rightarrow>
                       (let w3 = (if localTtl > 0 then setCacheLocal e key v (Some localTtl) w2
                                  else w2)
                        in if remoteTtl > 0
                           then (case setCacheRemote e key v (Some remoteTtl) w3 of
                                   (Inl err, w4) \<Rightarrow> Some (Inl err, w4)
                                 | (Inr v', w4) \<Rightarrow> Some (Inr v, w4))
                           else Some (Inr v, w3)))))"

subsection \<open>Invalidation\<close>

definition deleteInCacheLocal :: "string \<Rightarrow> 'x world \<Rightarrow> 'x world" where
  "deleteInCacheLocal key w = deleteCacheKey key w"

definition deleteInCache :: "env \<Rightarrow> string \<Rightarrow> 'x world \<Rightarrow> string list \<times> 'x world" where
  "deleteInCache e key w =
     (if CHR ''*'' \<in> set key then
        (let (allKeys, w1) = asyncKeys e key w
         in fold (\<lambda>k (invalidatedKeys, w). (invalidatedKeys @ [k], asyncDel k (deleteCacheKey k w)))
              allKeys ([], w1))
      else ([] @ [key], asyncDel key (deleteCacheKey key w)))"

text \<open>
  A transaction, as far as invalidation reads it: the sender, the receiver and the
  function name decoded from the data field (\<^verbatim>\<open>getDataFunctionName()\<close> of the
  transaction processor's \<^verbatim>\<open>ShardTransaction\<close>, \<open>None\<close> when there is none).
\<close>

record ShardTransaction =
  sender :: string
  receiver :: string
  getDataFunctionName :: "string option"

definition tryInvalidateTokensOnAccount ::
  "env \<Rightarrow> ShardTransaction \<Rightarrow> 'x world \<Rightarrow> string list \<times> 'x world" where
  "tryInvalidateTokensOnAccount e transaction w =
     (if sender transaction \<noteq> esdtContractAddress e then ([], w)
      else deleteInCache e (''tokens:'' @ receiver transaction) w)"

definition tryInvalidateTokenBalance ::
  "env \<Rightarrow> ShardTransaction \<Rightarrow> 'x world \<Rightarrow> string list \<times> 'x world" where
  "tryInvalidateTokenBalance e transaction w =
     (let transactionFuncName = getDataFunctionName transaction
      in if transactionFuncName = Some ''ESDTTransfer'' then
           (let (invalidated, w1) = deleteInCache e (''tokens:'' @ sender transaction) w;
                invalidatedKeys = [] @ invalidated;
                (invalidated', w2) = deleteInCache e (''tokens:'' @ receiver transaction) w1;
                invalidatedKeys' = invalidatedKeys @ invalidated'
            in ([], w2))
         else ([], w))"

section \<open>Notions the properties are stated with\<close>

text \<open>
  Cutting a list into consecutive chunks of \<open>n\<close> items, the last one possibly shorter:
  what \<open>getChunks\<close> is shown to compute.
\<close>

function chunksOf :: "nat \<Rightarrow> 'a list \<Rightarrow> 'a list list" where
  "chunksOf n xs = (if n = 0 \<or> xs = [] then [] else take n xs # chunksOf n (drop n xs))"
  by pat_completeness auto
termination
  by (relation "measure (\<lambda>(n, xs). length xs)") auto

text \<open>
  What the batch path finds in Redis for a key: the decoded text, where a missing key, an
  empty text and a text that decodes to \<^verbatim>\<open>null\<close> all count as not held (the batch path
  marks a miss by \<^verbatim>\<open>null\<close>). \<open>decodable\<close> says that the text held for a key, if there
  is one and it is not empty, parses.
\<close>

definition remoteValue :: "env \<Rightarrow> 'x world \<Rightarrow> string \<Rightarrow> jsval option" where
  "remoteValue e w key =
     (case map_of (remote w) key of
        None \<Rightarrow> None
      | Some (s, t) \<Rightarrow>
          if s = [] then None
          else (case jsonParse e s of None \<Rightarrow> None | Some v \<Rightarrow> if v = Null then None else Some v))"

definition decodable :: "env \<Rightarrow> 'x world \<Rightarrow> string \<Rightarrow> bool" where
  "decodable e w key =
     (case map_of (remote w) key of None \<Rightarrow> True | Some (s, t) \<Rightarrow> s = [] \<or> jsonParse e s \<noteq> None)"

definition cachedOrNull :: "env \<Rightarrow> 'x world \<Rightarrow> string \<Rightarrow> jsval" where
  "cachedOrNull e w key = (case remoteValue e w key of None \<Rightarrow> Null | Some v \<Rightarrow> v)"

text \<open>
  The answer of a batch for one item: the value held for its key, or else the result
  \<open>f\<close> of the handler; with \<open>skipCache\<close>, always the latter.
\<close>

definition answer :: "env \<Rightarrow> 'x world \<Rightarrow> bool \<Rightarrow> ('a \<Rightarrow> string) \<Rightarrow> ('a \<Rightarrow> jsval) \<Rightarrow> 'a \<Rightarrow> jsval" where
  "answer e w skipCache keyFn f x =
     (case (if skipCache then None else remoteValue e w (keyFn x)) of
        Some v \<Rightarrow> v
      | None \<Rightarrow> f x)"

text \<open>The multi-get commands among the commands sent.\<close>

fun isMGET :: "command \<Rightarrow> bool" where
  "isMGET (MGET keys) = True"
| "isMGET c = False"

text \<open>
  The answers of a run over chunks, where \<open>after\<close> is what a chunk does to the state and
  \<open>answers\<close> what a chunk returns on a state: every chunk is answered on the state that
  the chunks before it left.
\<close>

fun chunkAnswers :: "('c \<Rightarrow> 'w \<Rightarrow> 'w) \<Rightarrow> ('w \<Rightarrow> 'c \<Rightarrow> 'r list) \<Rightarrow> 'c list \<Rightarrow> 'w \<Rightarrow> 'r list" where
  "chunkAnswers after answers [] w = []"
| "chunkAnswers after answers (c # cs) w = answers w c @ chunkAnswers after answers cs (after c w)"

text \<open>
  The \<^verbatim>\<open>set\<close> commands \<open>batchSetCache\<close> builds from one chunk of keys paired with their
  positions: the body of its loop over the chunks.
\<close>

definition chunkSets :: "env \<Rightarrow> jsval list \<Rightarrow> real list \<Rightarrow> (string \<times> nat) list \<Rightarrow> command list" where
  "chunkSets e vs ts chunk =
     (let chunkKeys = map fst chunk;
          chunkValues = map (\<lambda>element. elemAt vs (int (snd element))) chunk
      in map (\<lambda>(index, key).
                SETEX key (JSON_stringify e (elemAt chunkValues (int index))) (numAt ts index))
           (enumerate 0 chunkKeys))"

section \<open>Example states\<close>

text \<open>
  A state with empty caches, an empty table of pending operations and every random draw
  equal to one half, and an operation that always rejects.
\<close>

definition w0 :: "unit world" where
  "w0 = \<lparr>localCache = Map.empty, remote = [], commands = [], pendingPromises = Map.empty,
         randoms = (\<lambda>n. 1 / 2), drawn = 0, upstream = ()\<rparr>"


text \<open>
  A configuration for the examples. Its decoder agrees with \<^verbatim>\<open>JSON.parse\<close> on the texts
  the examples use: the literals \<^verbatim>\<open>null\<close>, \<^verbatim>\<open>true\<close>, \<^verbatim>\<open>false\<close>, the numbers 0, 1, 5
  and 7, the empty object \<^verbatim>\<open>{}\<close>, and texts that are not JSON, such as \<^verbatim>\<open>oops\<close>, on
  which it throws. Its encoder is the inverse on the literals and these numbers, and
  gives \<^verbatim>\<open>{}\<close> for every other value, so every text it gives parses.
\<close>

definition sampleParse :: "string \<Rightarrow> jsval option" where
  "sampleParse s =
     (if s = ''null'' then Some Null
      else if s = ''true'' then Some (Bool True)
      else if s = ''false'' then Some (Bool False)
      else if s = ''0'' then Some (Num 0)
      else if s = ''1'' then Some (Num 1)
      else if s = ''5'' then Some (Num 5)
      else if s = ''7'' then Some (Num 7)
      else if s = ''{}'' then Some (Obj [])
      else None)"

definition sampleStringify :: "jsval \<Rightarrow> string" where
  "sampleStringify v =
     (if v = Null then ''null''
      else if v = Bool True then ''true''
      else if v = Bool False then ''false''
      else if v = Num 0 then ''0''
      else if v = Num 1 then ''1''
      else if v = Num 5 then ''5''
      else if v = Num 7 then ''7''
      else ''{}'')"

definition conf :: env where
  "conf = \<lparr>cacheTtl = 600, processTtl = 60, poolLimit = 10, jsonParse = sampleParse,
            jsonStringify = sampleStringify,
            globMatch = (\<lambda>pattern key. pattern = key),
            esdtContractAddress = ''esdt''\<rparr>"

text \<open>
  States: the key \<open>k\<close> held as 0 locally and as 5 remotely; \<open>k\<close> held remotely as a text
  that is not JSON; token balances of two accounts; and an empty state whose upstream
  counts the calls of a handler.
\<close>

definition wFalsy :: "unit world" where
  "wFalsy = w0\<lparr>localCache := [''k'' \<mapsto> (Num 0, 300)], remote := [(''k'', ''5'', 600)]\<rparr>"

definition wCorrupt :: "unit world" where
  "wCorrupt = w0\<lparr>remote := [(''k'', ''oops'', 600)]\<rparr>"

definition wTokens :: "unit world" where
  "wTokens = w0\<lparr>localCache := [''tokens:alice'' \<mapsto> (Num 5, 300)],
                 remote := [(''tokens:alice'', ''5'', 600), (''tokens:bob'', ''7'', 600)]\<rparr>"

definition wCount :: "nat world" where
  "wCount = \<lparr>localCache = Map.empty, remote = [], commands = [], pendingPromises = Map.empty,
         randoms = (\<lambda>n. 1 / 2), drawn = 0, upstream = 0\<rparr>"

text \<open>
  Operations: one that resolves to 7, one that resolves to \<^verbatim>\<open>undefined\<close>, and one that
  resolves to whether the table holds its own promise under \<open>caching:set:k\<close> while it
  is in flight. Handlers: one that always rejects, one that rejects its first two calls.
  A key function, and an \<^verbatim>\<open>ESDTTransfer\<close> from alice to bob.
\<close>

definition populate7 :: "unit operation" where
  "populate7 = \<lparr>onCall = (\<lambda>w. w), onAwait = (\<lambda>w. Some (Inr (Num 7), w))\<rparr>"

definition populateUndefined :: "unit operation" where
  "populateUndefined = \<lparr>onCall = (\<lambda>w. w), onAwait = (\<lambda>w. Some (Inr Undefined, w))\<rparr>"


definition alwaysFails :: "nat \<Rightarrow> nat \<Rightarrow> (error + jsval) \<times> nat" where
  "alwaysFails x calls = (Inl (Rejected ''upstream down''), calls + 1)"

definition failsTwice :: "nat \<Rightarrow> nat \<Rightarrow> (error + jsval) \<times> nat" where
  "failsTwice x calls = (if calls < 2 then (Inl (Rejected ''upstream busy''), calls + 1)
                         else (Inr (Num 1), calls + 1))"

definition keyOf :: "nat \<Rightarrow> string" where
  "keyOf n = ''item:'' @ replicate n CHR ''i''"

definition transfer :: ShardTransaction where
  "transfer = \<lparr>sender = ''alice'', receiver = ''bob'', getDataFunctionName = Some ''ESDTTransfer''\<rparr>"

text \<open>
  A state where Redis holds 5 for the key of item 1, and a handler that returns the
  number of its item.
\<close>

definition wHit :: "unit world" where
  "wHit = w0\<lparr>remote := [(''item:i'', ''5'', 600)]\<rparr>"

definition numbered :: "nat \<Rightarrow> unit \<Rightarrow> (error + jsval) \<times> unit" where
  "numbered x u = (Inr (Num (int x)), u)"

text \<open>
  A key function under which item 100 has the key of item 0, and a state where Redis
  holds the text \<^verbatim>\<open>null\<close> for the key of item 7.
\<close>

definition sharedKey :: "nat \<Rightarrow> string" where
  "sharedKey n = keyOf (n mod 100)"

definition wNull :: "unit world" where
  "wNull = w0\<lparr>remote := [(''item:iiiiiii'', ''null'', 600)]\<rparr>"

text \<open>
  A state where Redis holds the empty text for \<open>k\<close>, and a handler whose result is 0
  for item 25 and 1 for every other item.
\<close>

definition wEmptyText :: "unit world" where
  "wEmptyText = w0\<lparr>remote := [(''k'', [], 600)]\<rparr>"

definition lastEmpty :: "nat \<Rightarrow> unit \<Rightarrow> (error + jsval) \<times> unit" where
  "lastEmpty x u = (Inr (if x = 25 then Num 0 else Num 1), u)"

lemmas sample_defs = conf_def sampleParse_def sampleStringify_def w0_def

section \<open>Time-to-live jitter\<close>

lemma Math_round_unit: "0 \<le> r \<Longrightarrow> r < 1 \<Longrightarrow> Math_round r = 0 \<or> Math_round r = 1"
  unfolding Math_round_def by linarith

lemma floor_scaled:
  fixes r x :: real
  assumes "0 \<le> r" "r < 1" "0 \<le> x"
  shows "0 \<le> \<lfloor>r * x\<rfloor> \<and> of_int \<lfloor>r * x\<rfloor> \<le> x"
proof -
  have "0 \<le> r * x" using assms by simp
  moreover have "r * x \<le> x" using assms by (simp add: mult_left_le_one_le)
  ultimately show ?thesis by (metis of_int_floor_le order_trans zero_le_floor)
qed

text \<open>
  C9. When the next two random draws lie in the unit interval, as every result of
  \<^verbatim>\<open>Math.random()\<close> does, \<open>spreadTtl\<close> moves a time-to-live of at least 300 by at most
  10 percent of it (and takes two draws), and returns a time-to-live below 300
  unchanged, taking no draw. Numbers are real numbers here, so the bound is the one of
  exact arithmetic.
\<close>

theorem spreadTtl_bounds:
  assumes "0 \<le> randoms w (drawn w)" and "randoms w (drawn w) < 1"
    and "0 \<le> randoms w (Suc (drawn w))" and "randoms w (Suc (drawn w)) < 1"
  shows "(300 \<le> ttl \<longrightarrow> \<bar>fst (spreadTtl ttl w) - ttl\<bar> \<le> ttl * 10 / 100
            \<and> drawn (snd (spreadTtl ttl w)) = drawn w + 2)
       \<and> (ttl < 300 \<longrightarrow> spreadTtl ttl w = (ttl, w))"
proof (intro conjI impI)
  assume big: "300 \<le> ttl"
  define s where "s = Math_round (randoms w (drawn w)) * 2 - 1"
  define a where "a = \<lfloor>randoms w (Suc (drawn w)) * ((ttl * 10) / 100)\<rfloor>"
  have res: "fst (spreadTtl ttl w) = ttl + of_int (s * a)"
    using big by (simp add: spreadTtl_def Math_random_def s_def a_def)
  have s: "s = -1 \<or> s = 1"
    using Math_round_unit [OF assms(1,2)] by (auto simp: s_def)
  have a: "0 \<le> a \<and> of_int a \<le> (ttl * 10) / 100"
    unfolding a_def using floor_scaled [OF assms(3,4), of "(ttl * 10) / 100"] big by simp
  have "\<bar>real_of_int (s * a)\<bar> = of_int a"
    using s a by (auto simp: abs_mult)
  then show "\<bar>fst (spreadTtl ttl w) - ttl\<bar> \<le> ttl * 10 / 100"
    using res a by simp
  show "drawn (snd (spreadTtl ttl w)) = drawn w + 2"
    using big by (simp add: spreadTtl_def Math_random_def)
next
  assume "ttl < 300"
  then show "spreadTtl ttl w = (ttl, w)"
    by (simp add: spreadTtl_def)
qed

text \<open>With both draws one half: \<open>spread(1000)\<close> lies in [900, 1100], \<open>spread(100)\<close> is 100.\<close>

theorem spreadTtl_bounds_witness:
  "0 \<le> randoms w0 (drawn w0) \<and> randoms w0 (drawn w0) < 1
   \<and> 0 \<le> randoms w0 (Suc (drawn w0)) \<and> randoms w0 (Suc (drawn w0)) < 1
   \<and> 900 \<le> fst (spreadTtl 1000 w0) \<and> fst (spreadTtl 1000 w0) \<le> 1100
   \<and> spreadTtl 100 w0 = (100, w0)"
proof -
  have h: "0 \<le> randoms w0 (drawn w0)" "randoms w0 (drawn w0) < 1"
    "0 \<le> randoms w0 (Suc (drawn w0))" "randoms w0 (Suc (drawn w0)) < 1"
    by (simp_all add: w0_def)
  from spreadTtl_bounds [OF h, of 1000] spreadTtl_bounds [OF h, of 100] h
  show ?thesis by (simp add: abs_le_iff)
qed

section \<open>Pending operations\<close>



text \<open>A call that awaits, from inside the operation, the promise of that operation never returns.\<close>

lemma executeWithPendingPromise_in_flight:
  "pendingPromises w key = Some InFlight \<Longrightarrow> executeWithPendingPromise key promise w = None"
  by (simp add: executeWithPendingPromise_def)

section \<open>Reading one key\<close>

text \<open>
  C10. When the value the local cache returns for a key is falsy, \<open>getCache\<close> does not
  serve it: its result is the result of the remote read. \<open>getOrSetCache\<close> returns
  any local value other than \<^verbatim>\<open>undefined\<close> at once, falsy or not, and changes nothing.
\<close>

theorem falsy_local_value:
  "(\<not> truthy (getCacheLocal w key) \<longrightarrow> getCache e key w = getCacheRemote e key w)
   \<and> (getCacheLocal w key \<noteq> Undefined \<longrightarrow>
        getOrSetCache e key promise remoteTtl localTtl w = Some (Inr (getCacheLocal w key), w))"
  by (simp add: getCache_def getOrSetCache_def Let_def)

lemma getCacheRemote_wFalsy:
  "getCacheRemote conf ''k'' wFalsy = Some (Inr (Num 5), wFalsy\<lparr>commands := [GET ''k'']\<rparr>)"
  by (simp add: getCacheRemote_def executeWithPendingPromise_def asyncGet_def reply_def sent_def
      wFalsy_def sample_defs)

text \<open>The local cache holds 0 and Redis holds 5: \<open>getCache\<close> gives 5, \<open>getOrSetCache\<close> 0.\<close>

theorem falsy_local_value_witness:
  "getCacheLocal wFalsy ''k'' = Num 0
   \<and> getCache conf ''k'' wFalsy = Some (Inr (Num 5), wFalsy\<lparr>commands := [GET ''k'']\<rparr>)
   \<and> getOrSetCache conf ''k'' populate7 600 None wFalsy = Some (Inr (Num 0), wFalsy)"
proof -
  have l: "getCacheLocal wFalsy ''k'' = Num 0"
    by (simp add: getCacheLocal_def getCacheValue_def wFalsy_def w0_def)
  from falsy_local_value [of wFalsy "''k''" conf populate7 600 None] l getCacheRemote_wFalsy
  show ?thesis by simp
qed

section \<open>Read-through of one key\<close>

text \<open>
  C4, as the claim states it, fails for a local time-to-live of 0: with a remote
  time-to-live of 10, the populated value is written to the local cache, for 5.
\<close>

theorem getOrSetCache_zero_localTtl_counterexample:
  "getCacheLocal w0 ''k'' = Undefined
   \<and> map_option fst (getCacheRemote conf ''k'' w0) = Some (Inr Null)
   \<and> map_option fst (getOrSetCache conf ''k'' populate7 10 (Some 0) w0) = Some (Inr (Num 7))
   \<and> map_option (\<lambda>(r, w). localCache w ''k'') (getOrSetCache conf ''k'' populate7 10 (Some 0) w0)
        = Some (Some (Num 7, 5))"
  by (simp add: getOrSetCache_def getCacheLocal_def getCacheValue_def getCacheRemote_def
      executeWithPendingPromise_def asyncGet_def reply_def sent_def populate7_def
      setCacheLocal_def setCacheValue_def setCacheRemote_def asyncSet_def JSON_stringify_def
      validExpiry_def sample_defs)

text \<open>
  C4, amended. The local time-to-live in effect is the one the caller gives, unless the
  caller gives none or gives 0: then it is half the remote one. After a miss in both tiers
  and a population that succeeds with \<open>v\<close>, the value is written to the local cache, with
  the time-to-live in effect, exactly when that is positive, and a \<^verbatim>\<open>SET\<close> with the
  remote time-to-live is issued exactly when the remote time-to-live is positive. When
  no \<^verbatim>\<open>SET\<close> is issued, or \<open>v\<close> is not \<^verbatim>\<open>undefined\<close> and the remote time-to-live is a whole
  number, the call returns \<open>v\<close>, and the \<^verbatim>\<open>SET\<close> issued stores the value. Otherwise the
  \<^verbatim>\<open>SET\<close> is refused, by the client when \<open>v\<close> is \<^verbatim>\<open>undefined\<close> and by Redis when the
  time-to-live is not a whole number: Redis keeps what it held and the call fails with
  that error, after the local write.
\<close>

theorem getOrSetCache_writes:
  assumes "getCacheLocal w key = Undefined"
    and "getCacheRemote e key w = Some (Inr cached, w1)"
    and "cached = Undefined \<or> cached = Null"
    and "executeWithPendingPromise (''caching:set:'' @ key) promise w1 = Some (Inr v, w2)"
    and "localTtl' = (case localTtl of None \<Rightarrow> remoteTtl / 2
                      | Some t \<Rightarrow> if t = 0 then remoteTtl / 2 else t)"
  shows "\<exists>w'. getOrSetCache e key promise remoteTtl localTtl w
           = Some (if 0 < remoteTtl \<and> v = Undefined then Inl InvalidArgument
                   else if 0 < remoteTtl \<and> \<not> validExpiry remoteTtl then Inl ReplyError
                   else Inr v, w')
    \<and> localCache w'
        = (if 0 < localTtl' then (localCache w2)(key \<mapsto> (v, localTtl')) else localCache w2)
    \<and> commands w'
        = commands w2 @ (if 0 < remoteTtl then [SETEX key (JSON_stringify e v) (Some remoteTtl)] else [])
    \<and> remote w'
        = (if 0 < remoteTtl \<and> v \<noteq> Undefined \<and> validExpiry remoteTtl
           then AList.update key (jsonStringify e v, remoteTtl) (remote w2)
           else remote w2)"
  using assms
  by (auto simp add: getOrSetCache_def Let_def setCacheLocal_def setCacheValue_def
      setCacheRemote_def asyncSet_def sent_def JSON_stringify_def)

text \<open>
  On the empty state, with a population that resolves to 7: a negative local
  time-to-live skips the local write and keeps the remote one; no local time-to-live gives
  half the remote one; a remote time-to-live of 0 skips the remote write and keeps the
  local one; a remote time-to-live of two and a half makes Redis refuse the \<^verbatim>\<open>SET\<close>.
  With a population that resolves to \<^verbatim>\<open>undefined\<close> the client refuses the \<^verbatim>\<open>SET\<close>.
\<close>

theorem getOrSetCache_writes_witness:
  "getCacheLocal w0 ''k'' = Undefined
   \<and> getCacheRemote conf ''k'' w0 = Some (Inr Null, w0\<lparr>commands := [GET ''k'']\<rparr>)
   \<and> executeWithPendingPromise (''caching:set:'' @ ''k'') populate7 (w0\<lparr>commands := [GET ''k'']\<rparr>)
        = Some (Inr (Num 7), w0\<lparr>commands := [GET ''k'']\<rparr>)
   \<and> map_option (\<lambda>(r, w). (r, localCache w ''k'', remote w))
         (getOrSetCache conf ''k'' populate7 10 (Some (- 1)) w0)
        = Some (Inr (Num 7), None, [(''k'', ''7'', 10)])
   \<and> map_option (\<lambda>(r, w). (r, localCache w ''k'', remote w))
         (getOrSetCache conf ''k'' populate7 10 None w0)
        = Some (Inr (Num 7), Some (Num 7, 5), [(''k'', ''7'', 10)])
   \<and> map_option (\<lambda>(r, w). (r, localCache w ''k'', remote w))
         (getOrSetCache conf ''k'' populate7 0 (Some 3) w0)
        = Some (Inr (Num 7), Some (Num 7, 3), [])
   \<and> map_option (\<lambda>(r, w). (r, localCache w ''k'', remote w))
         (getOrSetCache conf ''k'' populate7 (5 / 2) None w0)
        = Some (Inl ReplyError, Some (Num 7, 5 / 4), [])
   \<and> map_option (\<lambda>(r, w). (r, localCache w ''k'', remote w))
         (getOrSetCache conf ''k'' populateUndefined 10 None w0)
        = Some (Inl InvalidArgument, Some (Undefined, 5), [])"
proof -
  have l: "getCacheLocal w0 ''k'' = Undefined"
    by (simp add: getCacheLocal_def getCacheValue_def w0_def)
  have r: "getCacheRemote conf ''k'' w0 = Some (Inr Null, w0\<lparr>commands := [GET ''k'']\<rparr>)"
    by (simp add: getCacheRemote_def executeWithPendingPromise_def asyncGet_def reply_def
        sent_def w0_def)
  have c: "Null = Undefined \<or> Null = Null"
    by simp
  have p: "executeWithPendingPromise (''caching:set:'' @ ''k'') populate7 (w0\<lparr>commands := [GET ''k'']\<rparr>)
        = Some (Inr (Num 7), w0\<lparr>commands := [GET ''k'']\<rparr>)"
    by (simp add: executeWithPendingPromise_def populate7_def w0_def)
  have q: "executeWithPendingPromise (''caching:set:'' @ ''k'') populateUndefined (w0\<lparr>commands := [GET ''k'']\<rparr>)
        = Some (Inr Undefined, w0\<lparr>commands := [GET ''k'']\<rparr>)"
    by (simp add: executeWithPendingPromise_def populateUndefined_def w0_def)
  have v: "validExpiry 10" "\<not> validExpiry (5 / 2)"
    by (simp_all add: validExpiry_def)
  from getOrSetCache_writes [OF l r c p refl, of 10 "Some (- 1)"] v
  have a1: "map_option (\<lambda>(r, w). (r, localCache w ''k'', remote w))
         (getOrSetCache conf ''k'' populate7 10 (Some (- 1)) w0)
        = Some (Inr (Num 7), None, [(''k'', ''7'', 10)])"
    by (auto simp add: sample_defs)
  from getOrSetCache_writes [OF l r c p refl, of 10 None] v
  have a2: "map_option (\<lambda>(r, w). (r, localCache w ''k'', remote w))
         (getOrSetCache conf ''k'' populate7 10 None w0)
        = Some (Inr (Num 7), Some (Num 7, 5), [(''k'', ''7'', 10)])"
    by (auto simp add: sample_defs)
  from getOrSetCache_writes [OF l r c p refl, of 0 "Some 3"]
  have a3: "map_option (\<lambda>(r, w). (r, localCache w ''k'', remote w))
         (getOrSetCache conf ''k'' populate7 0 (Some 3) w0)
        = Some (Inr (Num 7), Some (Num 7, 3), [])"
    by (auto simp add: sample_defs)
  from getOrSetCache_writes [OF l r c p refl, of "5 / 2" None] v
  have a4: "map_option (\<lambda>(r, w). (r, localCache w ''k'', remote w))
         (getOrSetCache conf ''k'' populate7 (5 / 2) None w0)
        = Some (Inl ReplyError, Some (Num 7, 5 / 4), [])"
    by (auto simp add: sample_defs)
  from getOrSetCache_writes [OF l r c q refl, of 10 None] v
  have a5: "map_option (\<lambda>(r, w). (r, localCache w ''k'', remote w))
         (getOrSetCache conf ''k'' populateUndefined 10 None w0)
        = Some (Inl InvalidArgument, Some (Undefined, 5), [])"
    by (auto simp add: sample_defs)
  show ?thesis
    using l r p a1 a2 a3 a4 a5 by simp
qed

section \<open>Invalidation\<close>

text \<open>
  C7, as the claim states it, fails: the list \<open>deleteInCache\<close> returns is not the list of
  the keys it removed. Deleting \<open>tokens:bob\<close> twice in succession returns the key both
  times, although after the first call neither tier holds it.
\<close>

theorem deleteInCache_twice_counterexample:
  "CHR ''*'' \<notin> set ''tokens:bob''
   \<and> fst (deleteInCache conf ''tokens:bob'' wTokens) = [''tokens:bob'']
   \<and> map_of (remote (snd (deleteInCache conf ''tokens:bob'' wTokens))) ''tokens:bob'' = None
   \<and> localCache (snd (deleteInCache conf ''tokens:bob'' wTokens)) ''tokens:bob'' = None
   \<and> fst (deleteInCache conf ''tokens:bob'' (snd (deleteInCache conf ''tokens:bob'' wTokens)))
        = [''tokens:bob'']"
  by (simp add: deleteInCache_def asyncDel_def deleteCacheKey_def sent_def wTokens_def w0_def)

text \<open>
  C7, amended. For a key without a wildcard, \<open>deleteInCache\<close> deletes the key in both
  tiers, sends one \<^verbatim>\<open>DEL\<close>, leaves every other key as it was, and returns the list that
  holds just this key, whether or not a tier held it. A second call in succession returns
  the same list and leaves both tiers as the first call left them.
\<close>

theorem deleteInCache_exact:
  assumes "CHR ''*'' \<notin> set key"
  shows "fst (deleteInCache e key w) = [key]
    \<and> localCache (snd (deleteInCache e key w)) = (localCache w)(key := None)
    \<and> map_of (remote (snd (deleteInCache e key w))) = (map_of (remote w))(key := None)
    \<and> commands (snd (deleteInCache e key w)) = commands w @ [DEL key]
    \<and> fst (deleteInCache e key (snd (deleteInCache e key w))) = [key]
    \<and> localCache (snd (deleteInCache e key (snd (deleteInCache e key w))))
        = localCache (snd (deleteInCache e key w))
    \<and> map_of (remote (snd (deleteInCache e key (snd (deleteInCache e key w)))))
        = map_of (remote (snd (deleteInCache e key w)))"
  using assms
  by (simp add: deleteInCache_def asyncDel_def deleteCacheKey_def sent_def delete_conv')

theorem deleteInCache_exact_witness:
  "CHR ''*'' \<notin> set ''tokens:alice''
   \<and> fst (deleteInCache conf ''tokens:alice'' wTokens) = [''tokens:alice'']
   \<and> localCache (snd (deleteInCache conf ''tokens:alice'' wTokens)) ''tokens:alice'' = None
   \<and> map_of (remote (snd (deleteInCache conf ''tokens:alice'' wTokens))) ''tokens:alice'' = None
   \<and> map_of (remote (snd (deleteInCache conf ''tokens:alice'' wTokens))) ''tokens:bob'' = Some (''7'', 600)"
proof -
  have h: "CHR ''*'' \<notin> set ''tokens:alice''"
    by simp
  from deleteInCache_exact [OF h, of conf wTokens] h
  show ?thesis by (simp add: wTokens_def w0_def)
qed

text \<open>
  C8. For an \<^verbatim>\<open>ESDTTransfer\<close> from alice to bob, on a state that holds the token balances
  of both, \<open>tryInvalidateTokenBalance\<close> deletes both keys in both tiers and returns the
  empty list: the keys it collected are dropped.
\<close>

theorem tryInvalidateTokenBalance_returns_nothing:
  "getDataFunctionName transfer = Some ''ESDTTransfer''
   \<and> map_of (remote wTokens) ''tokens:alice'' = Some (''5'', 600)
   \<and> map_of (remote wTokens) ''tokens:bob'' = Some (''7'', 600)
   \<and> fst (tryInvalidateTokenBalance conf transfer wTokens) = []
   \<and> remote (snd (tryInvalidateTokenBalance conf transfer wTokens)) = []
   \<and> localCache (snd (tryInvalidateTokenBalance conf transfer wTokens)) ''tokens:alice'' = None
   \<and> commands (snd (tryInvalidateTokenBalance conf transfer wTokens)) = [DEL ''tokens:alice'', DEL ''tokens:bob'']"
  by (simp add: tryInvalidateTokenBalance_def deleteInCache_def asyncDel_def deleteCacheKey_def
      sent_def transfer_def wTokens_def w0_def)

text \<open>It returns the empty list for every transaction; the sibling rule returns its key.\<close>

lemma tryInvalidateTokenBalance_empty: "fst (tryInvalidateTokenBalance e transaction w) = []"
  by (simp add: tryInvalidateTokenBalance_def Let_def split_beta)

lemma tryInvalidateTokenBalance_unmatched:
  "getDataFunctionName transaction \<noteq> Some ''ESDTTransfer'' \<Longrightarrow>
   tryInvalidateTokenBalance e transaction w = ([], w)"
  by (simp add: tryInvalidateTokenBalance_def)

lemma tryInvalidateTokensOnAccount_reports:
  "sender transaction = esdtContractAddress e \<Longrightarrow> CHR ''*'' \<notin> set (receiver transaction) \<Longrightarrow>
   fst (tryInvalidateTokensOnAccount e transaction w) = [''tokens:'' @ receiver transaction]"
  by (simp add: tryInvalidateTokensOnAccount_def deleteInCache_def)

section \<open>Retrying a chunk\<close>

text \<open>The loop, started with no failed attempt, unrolled.\<close>

lemma attemptChunk_0:
  "attemptChunk 0 process w =
     (case process w of
        (Inr r, w1) \<Rightarrow> (Inr r, w1)
      | (Inl e1, w1) \<Rightarrow>
          (case process w1 of
             (Inr r, w2) \<Rightarrow> (Inr r, w2)
           | (Inl e2, w2) \<Rightarrow> process w2))"
  by (auto simp add: attemptChunk.simps [of _ process] split: prod.splits sum.splits)

text \<open>
  C6. The loop of \<open>batchProcess\<close> over the chunks, at any chunk, with the results so far
  in \<open>result\<close>. When three attempts on the chunk in a row fail, each on the state the
  previous one left, the call fails with the third failure, on the state after exactly
  three attempts, and returns no results. When the first, the second or the third attempt
  succeeds, its results are appended and the loop goes on with the remaining chunks.
\<close>

theorem chunk_retried_three_times:
  "(process chunk w = (Inl e1, w1) \<and> process chunk w1 = (Inl e2, w2)
      \<and> process chunk w2 = (Inl e3, w3)
      \<longrightarrow> processChunks process (chunk # chunks) result w = (Inl e3, w3))
   \<and> (process chunk w = (Inr r, w1)
      \<longrightarrow> processChunks process (chunk # chunks) result w
          = processChunks process chunks (result @ r) w1)
   \<and> (process chunk w = (Inl e1, w1) \<and> process chunk w1 = (Inr r, w2)
      \<longrightarrow> processChunks process (chunk # chunks) result w
          = processChunks process chunks (result @ r) w2)
   \<and> (process chunk w = (Inl e1, w1) \<and> process chunk w1 = (Inl e2, w2)
      \<and> process chunk w2 = (Inr r, w3)
      \<longrightarrow> processChunks process (chunk # chunks) result w
          = processChunks process chunks (result @ r) w3)"
  by (simp add: attemptChunk_0)

lemma getChunks_single: "getChunks [x] 100 = [[x]]"
  by (simp add: getChunks_def chunkStep_def)

lemma alwaysFails_attempt:
  "batchProcessChunk conf [0] keyOf alwaysFails 600 True (wCount\<lparr>upstream := n\<rparr>)
     = (Inl (Rejected ''upstream down''), wCount\<lparr>upstream := n + 1\<rparr>)"
  by (simp add: batchProcessChunk_def alwaysFails_def wCount_def)

lemma failsTwice_attempt:
  "n < 2 \<Longrightarrow> batchProcessChunk conf [0] keyOf failsTwice 600 True (wCount\<lparr>upstream := n\<rparr>)
     = (Inl (Rejected ''upstream busy''), wCount\<lparr>upstream := n + 1\<rparr>)"
  by (simp add: batchProcessChunk_def failsTwice_def wCount_def)

lemma failsTwice_third:
  "batchProcessChunk conf [0] keyOf failsTwice 600 True (wCount\<lparr>upstream := 2\<rparr>)
     = (Inr [Num 1],
        wCount\<lparr>upstream := 3, drawn := 2,
          localCache := [''item:'' \<mapsto> (Num 1, 630)],
          remote := [(''item:'', ''1'', 630)],
          commands := [MULTI [SETEX ''item:'' (Some ''1'') (Some 630)]]\<rparr>)"
  by (simp add: batchProcessChunk_def failsTwice_def wCount_def batchSetCache_def
      spreadTtl_def Math_random_def Math_round_def setCacheLocal_def setCacheValue_def
      getChunks_def chunkStep_def asyncMulti_def sent_def elemAt_def numAt_def keyOf_def
      enumerate_eq_zip JSON_stringify_def validExpiry_def sample_defs)

text \<open>
  A batch of one item, skipping the cache, on a state that counts the handler's calls. A
  handler that always rejects is called three times, and the batch call rejects. A
  handler that rejects twice is called three times, and the batch call returns its result.
\<close>

theorem chunk_retried_three_times_witness:
  "batchProcessChunk conf [0] keyOf alwaysFails 600 True wCount
     = (Inl (Rejected ''upstream down''), wCount\<lparr>upstream := 1\<rparr>)
   \<and> batchProcessChunk conf [0] keyOf alwaysFails 600 True (wCount\<lparr>upstream := 1\<rparr>)
     = (Inl (Rejected ''upstream down''), wCount\<lparr>upstream := 2\<rparr>)
   \<and> batchProcessChunk conf [0] keyOf alwaysFails 600 True (wCount\<lparr>upstream := 2\<rparr>)
     = (Inl (Rejected ''upstream down''), wCount\<lparr>upstream := 3\<rparr>)
   \<and> batchProcess conf [0] keyOf alwaysFails 600 True wCount
     = (Inl (Rejected ''upstream down''), wCount\<lparr>upstream := 3\<rparr>)
   \<and> fst (batchProcess conf [0] keyOf failsTwice 600 True wCount) = Inr [Num 1]
   \<and> upstream (snd (batchProcess conf [0] keyOf failsTwice 600 True wCount)) = 3"
proof -
  have a1: "batchProcessChunk conf [0] keyOf alwaysFails 600 True wCount
     = (Inl (Rejected ''upstream down''), wCount\<lparr>upstream := 1\<rparr>)"
    using alwaysFails_attempt [of 0] by (simp add: wCount_def)
  have a2: "batchProcessChunk conf [0] keyOf alwaysFails 600 True (wCount\<lparr>upstream := 1\<rparr>)
     = (Inl (Rejected ''upstream down''), wCount\<lparr>upstream := 2\<rparr>)"
    using alwaysFails_attempt [of 1] by simp
  have a3: "batchProcessChunk conf [0] keyOf alwaysFails 600 True (wCount\<lparr>upstream := 2\<rparr>)
     = (Inl (Rejected ''upstream down''), wCount\<lparr>upstream := 3\<rparr>)"
    using alwaysFails_attempt [of 2] by simp
  have b1: "batchProcessChunk conf [0] keyOf failsTwice 600 True wCount
     = (Inl (Rejected ''upstream busy''), wCount\<lparr>upstream := 1\<rparr>)"
    using failsTwice_attempt [of 0] by (simp add: wCount_def)
  have b2: "batchProcessChunk conf [0] keyOf failsTwice 600 True (wCount\<lparr>upstream := 1\<rparr>)
     = (Inl (Rejected ''upstream busy''), wCount\<lparr>upstream := 2\<rparr>)"
    using failsTwice_attempt [of 1] by simp
  from chunk_retried_three_times
    [of "\<lambda>chunk. batchProcessChunk conf chunk keyOf alwaysFails 600 True" "[0]" wCount
      "Rejected ''upstream down''" "wCount\<lparr>upstream := 1\<rparr>"
      "Rejected ''upstream down''" "wCount\<lparr>upstream := 2\<rparr>"
      "Rejected ''upstream down''" "wCount\<lparr>upstream := 3\<rparr>" "[]" "[]"]
    chunk_retried_three_times
    [of "\<lambda>chunk. batchProcessChunk conf chunk keyOf failsTwice 600 True" "[0]" wCount
      "Rejected ''upstream busy''" "wCount\<lparr>upstream := 1\<rparr>"
      "Rejected ''upstream busy''" "wCount\<lparr>upstream := 2\<rparr>" _ _ "[]" "[]" "[Num 1]"]
    a1 a2 a3 b1 b2 failsTwice_third
  show ?thesis by (simp add: batchProcess_def getChunks_single)
qed

section \<open>Chunks are consecutive\<close>

declare chunksOf.simps [simp del]

lemma chunksOf_Nil [simp]: "chunksOf n [] = []"
  by (simp add: chunksOf.simps)

lemma chunksOf_short: "0 < n \<Longrightarrow> xs \<noteq> [] \<Longrightarrow> length xs \<le> n \<Longrightarrow> chunksOf n xs = [xs]"
  by (simp add: chunksOf.simps [of n xs])

lemma chunksOf_eq_Nil: "0 < n \<Longrightarrow> (chunksOf n xs = []) = (xs = [])"
  by (simp add: chunksOf.simps [of n xs])

lemma concat_chunksOf: "0 < n \<Longrightarrow> concat (chunksOf n xs) = xs"
proof (induction n xs rule: chunksOf.induct)
  case (1 n xs)
  then show ?case by (cases "xs = []") (simp_all add: chunksOf.simps [of n xs])
qed

lemma ceil_div_exact:
  fixes m n :: nat
  assumes "0 < n" "m mod n = 0"
  shows "(m + n - 1) div n = m div n"
proof (rule div_nat_eqI)
  have d: "n * (m div n) + m mod n = m" by (rule mult_div_mod_eq)
  show "n * (m div n) \<le> m + n - 1" using d assms by linarith
  have "n * Suc (m div n) = n * (m div n) + n" by simp
  then show "m + n - 1 < n * Suc (m div n)" using d assms by linarith
qed

lemma ceil_div_inexact:
  fixes m n :: nat
  assumes "0 < n" "m mod n \<noteq> 0"
  shows "(m + n - 1) div n = Suc (m div n)"
proof (rule div_nat_eqI)
  have d: "n * (m div n) + m mod n = m" by (rule mult_div_mod_eq)
  have lt: "m mod n < n" using assms by simp
  have s1: "n * Suc (m div n) = n * (m div n) + n" by simp
  have s2: "n * Suc (Suc (m div n)) = n * (m div n) + n + n" by simp
  show "n * Suc (m div n) \<le> m + n - 1"
    using d assms(2) s1 by linarith
  show "m + n - 1 < n * Suc (Suc (m div n))"
    using d lt assms(1) s2 by linarith
qed

lemma length_chunksOf: "0 < n \<Longrightarrow> length (chunksOf n xs) = (length xs + n - 1) div n"
proof (induction n xs rule: chunksOf.induct)
  case (1 n xs)
  show ?case
  proof (cases "xs = []")
    case True
    then show ?thesis using 1(2) by simp
  next
    case False
    note ne = this
    then have pos: "0 < length xs" by simp
    show ?thesis
    proof (cases "length xs \<le> n")
      case True
      have "(length xs + n - 1) div n = 1"
      proof (rule div_nat_eqI)
        show "n * 1 \<le> length xs + n - 1" using pos by linarith
        have "n * Suc 1 = n + n" by simp
        then show "length xs + n - 1 < n * Suc 1" using True pos 1(2) by linarith
      qed
      then show ?thesis using chunksOf_short [OF 1(2) ne True] by simp
    next
      case False
      define a where "a = length xs - n"
      have la: "length xs = a + n" using False by (simp add: a_def)
      have ih: "length (chunksOf n (drop n xs)) = (a + n - 1) div n"
        using 1(1) 1(2) ne by (simp add: a_def)
      have e: "a + n + n - 1 = (a + n - 1) + n" using 1(2) by linarith
      have "((a + n - 1) + n) div n = (a + n - 1) div n + 1"
        using 1(2) by (intro div_add_self2) simp
      then have "(a + n + n - 1) div n = (a + n - 1) div n + 1"
        by (simp only: e)
      then show ?thesis
        using ih ne 1(2) by (simp add: chunksOf.simps [of n xs] la)
    qed
  qed
qed

lemma chunksOf_snoc:
  "0 < n \<Longrightarrow> chunksOf n (xs @ [x]) =
     (if length xs mod n = 0 then chunksOf n xs @ [[x]]
      else butlast (chunksOf n xs) @ [last (chunksOf n xs) @ [x]])"
proof (induction n xs rule: chunksOf.induct)
  case (1 n xs)
  show ?case
  proof (cases "xs = []")
    case True
    then show ?thesis using 1(2) by (simp add: chunksOf.simps [of n "[x]"])
  next
    case False
    note ne = this
    show ?thesis
    proof (cases "length xs < n")
      case True
      then have "chunksOf n (xs @ [x]) = [xs @ [x]]"
        using 1(2) by (intro chunksOf_short) auto
      moreover have "chunksOf n xs = [xs]"
        using True ne 1(2) by (intro chunksOf_short) auto
      moreover have "length xs mod n \<noteq> 0" using True ne by simp
      ultimately show ?thesis by simp
    next
      case False
      then have ge: "n \<le> length xs" by simp
      have step: "chunksOf n (xs @ [x]) = take n xs # chunksOf n (drop n xs @ [x])"
        using ge 1(2) by (simp add: chunksOf.simps [of n "xs @ [x]"])
      have cx: "chunksOf n xs = take n xs # chunksOf n (drop n xs)"
        using ne 1(2) by (simp add: chunksOf.simps [of n xs])
      have md: "(length xs - n) mod n = length xs mod n"
        using ge by (simp add: le_mod_geq)
      have ih: "chunksOf n (drop n xs @ [x]) =
         (if length xs mod n = 0 then chunksOf n (drop n xs) @ [[x]]
          else butlast (chunksOf n (drop n xs)) @ [last (chunksOf n (drop n xs)) @ [x]])"
        using 1(1) [OF _ 1(2)] ne 1(2) md by simp
      show ?thesis
      proof (cases "length xs mod n = 0")
        case True
        then show ?thesis using step cx ih by simp
      next
        case False
        then have "drop n xs \<noteq> []" using ge by (auto simp: le_antisym)
        then have "chunksOf n (drop n xs) \<noteq> []" using 1(2) by (simp add: chunksOf_eq_Nil)
        then show ?thesis using step cx ih False by simp
      qed
    qed
  qed
qed

lemma chunkStep_chunksOf:
  assumes "0 < n"
  shows "chunkStep n x (chunksOf n pre, length pre) = (chunksOf n (pre @ [x]), Suc (length pre))"
proof (cases "length pre mod n = 0")
  case True
  then have idx: "length pre div n = length (chunksOf n pre)"
    using ceil_div_exact [OF assms, of "length pre"] length_chunksOf [OF assms, of pre] by simp
  show ?thesis
    using True idx assms by (simp add: chunkStep_def chunksOf_snoc)
next
  case False
  then have ne: "pre \<noteq> []" by auto
  then have cne: "chunksOf n pre \<noteq> []" using assms by (simp add: chunksOf_eq_Nil)
  have len: "length (chunksOf n pre) = Suc (length pre div n)"
    using ceil_div_inexact [OF assms False] length_chunksOf [OF assms, of pre] by simp
  then have idx: "length pre div n = length (chunksOf n pre) - 1" by simp
  have upd: "(chunksOf n pre)[length (chunksOf n pre) - 1 :=
                chunksOf n pre ! (length (chunksOf n pre) - 1) @ [x]]
      = butlast (chunksOf n pre) @ [last (chunksOf n pre) @ [x]]"
  proof -
    obtain ys y where sp: "chunksOf n pre = ys @ [y]"
      using cne by (metis append_butlast_last_id)
    show ?thesis by (simp add: sp)
  qed
  have lt: "length (chunksOf n pre) - 1 < length (chunksOf n pre)"
    using cne by simp
  have "chunkStep n x (chunksOf n pre, length pre)
      = (butlast (chunksOf n pre) @ [last (chunksOf n pre) @ [x]], Suc (length pre))"
    unfolding chunkStep_def Let_def prod.case idx using lt upd by simp
  then show ?thesis
    using False assms by (simp add: chunksOf_snoc)
qed

lemma fold_chunkStep:
  "0 < n \<Longrightarrow> fold (chunkStep n) xs (chunksOf n pre, length pre)
      = (chunksOf n (pre @ xs), length pre + length xs)"
proof (induction xs arbitrary: pre)
  case Nil
  then show ?case by simp
next
  case (Cons x xs)
  from Cons.IH [OF Cons.prems, of "pre @ [x]"] chunkStep_chunksOf [OF Cons.prems, of x pre]
  show ?case by simp
qed

lemma getChunks_chunksOf: "0 < n \<Longrightarrow> getChunks xs n = chunksOf n xs"
  using fold_chunkStep [of n xs "[]"] by (simp add: getChunks_def)

section \<open>Batches\<close>

subsection \<open>Reads, handlers and time-to-live values\<close>

lemma remoteValue_remote: "remote w' = remote w \<Longrightarrow> remoteValue e w' = remoteValue e w"
  by (simp add: remoteValue_def fun_eq_iff)

lemma decodable_remote: "remote w' = remote w \<Longrightarrow> decodable e w' = decodable e w"
  by (simp add: decodable_def fun_eq_iff)

lemma cachedOrNull_remote: "remote w' = remote w \<Longrightarrow> cachedOrNull e w' = cachedOrNull e w"
  using remoteValue_remote [of w' w e] by (simp add: cachedOrNull_def fun_eq_iff)

lemma cachedOrNull_Null: "(cachedOrNull e w key = Null) = (remoteValue e w key = None)"
  by (auto simp: cachedOrNull_def remoteValue_def split: option.splits prod.splits if_splits)

lemma decode_reply:
  "decodable e w key \<Longrightarrow>
   (if truthy (reply w key) then JSON_parse e (reply w key) else Inr Null)
     = Inr (cachedOrNull e w key)"
  by (auto simp: decodable_def reply_def cachedOrNull_def remoteValue_def
      split: option.splits prod.splits)

lemma parseReplies_decodable:
  "\<forall>key\<in>set keys. decodable e w key \<Longrightarrow>
   parseReplies e (map (reply w) keys) = Inr (map (cachedOrNull e w) keys)"
  by (induction keys) (simp_all add: decode_reply)

lemma batchGetChunks_decodable:
  "\<forall>key\<in>set (concat chunks). decodable e w key \<Longrightarrow>
   batchGetChunks e chunks acc w
     = (Inr (acc @ map (cachedOrNull e w) (concat chunks)),
        w\<lparr>commands := commands w @ map MGET chunks\<rparr>)"
proof (induction chunks arbitrary: acc w)
  case Nil
  then show ?case by simp
next
  case (Cons c chunks)
  have r: "remote (sent (MGET c) w) = remote w" by (simp add: sent_def)
  have here: "parseReplies e (map (reply w) c) = Inr (map (cachedOrNull e w) c)"
    using Cons.prems by (intro parseReplies_decodable) simp
  have rest: "\<forall>key\<in>set (concat chunks). decodable e (sent (MGET c) w) key"
    using Cons.prems by (simp add: decodable_remote [OF r])
  show ?case
    using Cons.IH [OF rest] here
    by (simp add: asyncMGet_def cachedOrNull_remote [OF r]) (simp add: sent_def)
qed

lemma batchGetCache_decodable:
  "\<forall>key\<in>set keys. decodable e w key \<Longrightarrow>
   batchGetCache e keys w
     = (Inr (map (cachedOrNull e w) keys),
        w\<lparr>commands := commands w @ map MGET (chunksOf 100 keys)\<rparr>)"
  using batchGetChunks_decodable [of "chunksOf 100 keys" e w "[]"]
  by (simp add: batchGetCache_def getChunks_chunksOf concat_chunksOf)

lemma asyncPool_total:
  "\<forall>x u. fst (handler x u) = Inr (f x) \<Longrightarrow>
   fst (asyncPool limit xs handler u) = Inr (map f xs)"
proof (induction xs arbitrary: u)
  case Nil
  then show ?case by simp
next
  case (Cons x xs)
  obtain u1 where h: "handler x u = (Inr (f x), u1)"
    using Cons.prems by (metis fst_conv surj_pair)
  obtain u2 where t: "asyncPool limit xs handler u1 = (Inr (map f xs), u2)"
    using Cons.IH [OF Cons.prems, of u1] by (metis fst_conv surj_pair)
  show ?case by (simp add: h t)
qed

lemma indexOf_member:
  "x \<in> set xs \<Longrightarrow> 0 \<le> indexOf xs x \<and> nat (indexOf xs x) < length xs \<and> xs ! nat (indexOf xs x) = x"
proof (induction xs)
  case Nil
  then show ?case by simp
next
  case (Cons y ys)
  show ?case
  proof (cases "y = x")
    case True
    then show ?thesis by simp
  next
    case False
    then have "x \<in> set ys" using Cons.prems by simp
    from Cons.IH [OF this] False show ?thesis
      by (simp add: Let_def nat_add_distrib)
  qed
qed

lemma spreadTtl_frame: "\<exists>d. snd (spreadTtl t w) = w\<lparr>drawn := d\<rparr>"
proof (cases "300 \<le> t")
  case True
  then have "snd (spreadTtl t w) = w\<lparr>drawn := drawn w + 1 + 1\<rparr>"
    by (simp add: spreadTtl_def Math_random_def)
  then show ?thesis by blast
next
  case False
  then have "snd (spreadTtl t w) = w\<lparr>drawn := drawn w\<rparr>"
    by (simp add: spreadTtl_def)
  then show ?thesis by blast
qed

lemma spreadTtls_frame: "\<exists>d. snd (spreadTtls ts w) = w\<lparr>drawn := d\<rparr>"
proof (induction ts arbitrary: w)
  case Nil
  have "snd (spreadTtls [] w) = w\<lparr>drawn := drawn w\<rparr>" by simp
  then show ?case by blast
next
  case (Cons t ts)
  obtain d1 where d1: "snd (spreadTtl t w) = w\<lparr>drawn := d1\<rparr>"
    using spreadTtl_frame by blast
  obtain d2 where d2: "snd (spreadTtls ts (w\<lparr>drawn := d1\<rparr>)) = w\<lparr>drawn := d1\<rparr>\<lparr>drawn := d2\<rparr>"
    using Cons.IH by blast
  have "snd (spreadTtls (t # ts) w) = w\<lparr>drawn := d2\<rparr>"
    using d1 d2 by (simp add: split_beta)
  then show ?case by blast
qed

lemma fold_setCacheLocal_frame:
  "remote (fold (\<lambda>(index, key) w. setCacheLocal e key (F index) (G index) w) xs w) = remote w
   \<and> commands (fold (\<lambda>(index, key) w. setCacheLocal e key (F index) (G index) w) xs w) = commands w"
  by (induction xs arbitrary: w) (simp_all add: split_beta setCacheLocal_def setCacheValue_def)

subsection \<open>The commands of a batch write\<close>

lemma map_snd_zip_fun:
  "length xs = length ys \<Longrightarrow> map (\<lambda>element. g (snd element)) (zip xs ys) = map g ys"
  by (induction xs ys rule: list_induct2) simp_all

lemma swap_enumerate:
  "map (\<lambda>(index, key). (key, index)) (enumerate off ks) = zip ks [off..<off + length ks]"
proof (induction ks arbitrary: off)
  case Nil
  then show ?case by simp
next
  case (Cons k ks)
  have "[off..<off + length (k # ks)] = off # [Suc off..<Suc off + length ks]"
    by (subst upt_rec) simp
  then show ?case using Cons.IH [of "Suc off"] by simp
qed

lemma chunkSets_zip:
  "chunkSets e vs ts (zip c [off..<off + length c])
     = map (\<lambda>(j, k). SETEX k (JSON_stringify e (elemAt vs (int (off + j)))) (numAt ts j))
         (enumerate 0 c)"
proof -
  have keys: "map fst (zip c [off..<off + length c]) = c"
    by simp
  have vals: "map (\<lambda>element. elemAt vs (int (snd element))) (zip c [off..<off + length c])
      = map (\<lambda>i. elemAt vs (int i)) [off..<off + length c]"
    by (rule map_snd_zip_fun) simp
  show ?thesis
    unfolding chunkSets_def Let_def keys vals
  proof (rule map_cong [OF refl])
    fix p assume pin: "p \<in> set (enumerate 0 c)"
    obtain j k where p: "p = (j, k)" by (cases p)
    have j: "j < length c"
      using pin unfolding p in_set_enumerate_eq by simp
    have "elemAt (map (\<lambda>i. elemAt vs (int i)) [off..<off + length c]) (int j)
        = elemAt vs (int (off + j))"
      using j by (simp add: elemAt_def)
    then show "(case p of (index, key) \<Rightarrow>
            SETEX key (JSON_stringify e (elemAt (map (\<lambda>i. elemAt vs (int i)) [off..<off + length c]) (int index)))
              (numAt ts index))
        = (case p of (j, k) \<Rightarrow> SETEX k (JSON_stringify e (elemAt vs (int (off + j)))) (numAt ts j))"
      by (simp add: p)
  qed
qed

lemma allSets:
  "concat (map (chunkSets e vs ts) (chunksOf 25 (zip ks [off..<off + length ks])))
     = map (\<lambda>(i, k). SETEX k (JSON_stringify e (elemAt vs (int i))) (numAt ts ((i - off) mod 25)))
         (enumerate off ks)"
proof (induction ks arbitrary: off rule: length_induct)
  case (1 ks)
  show ?case
  proof (cases "ks = []")
    case True
    then show ?thesis by simp
  next
    case False
    define c where "c = take 25 ks"
    define r where "r = drop 25 ks"
    have ks: "ks = c @ r" by (simp add: c_def r_def)
    have lc: "length c \<le> 25" "c \<noteq> []" using False by (auto simp: c_def)
    have shorter: "length r < length ks" using False by (simp add: r_def)
    have tk: "take 25 (zip ks [off..<off + length ks]) = zip c [off..<off + length c]"
      by (simp add: take_zip c_def take_upt min_def)
    have dr: "drop 25 (zip ks [off..<off + length ks])
        = zip r [off + 25..<off + 25 + length r]"
      by (cases "25 \<le> length ks") (simp_all add: drop_zip r_def add.commute add.left_commute)
    have split: "chunksOf 25 (zip ks [off..<off + length ks])
        = zip c [off..<off + length c] # chunksOf 25 (zip r [off + 25..<off + 25 + length r])"
      using False by (simp add: chunksOf.simps [of 25 "zip ks [off..<off + length ks]"] tk dr)
    have first: "chunkSets e vs ts (zip c [off..<off + length c])
        = map (\<lambda>(i, k). SETEX k (JSON_stringify e (elemAt vs (int i))) (numAt ts ((i - off) mod 25)))
            (enumerate off c)"
    proof -
      have "map (\<lambda>(i, k). SETEX k (JSON_stringify e (elemAt vs (int i))) (numAt ts ((i - off) mod 25)))
              (enumerate off c)
          = map (\<lambda>(j, k). SETEX k (JSON_stringify e (elemAt vs (int (off + j)))) (numAt ts j))
              (enumerate 0 c)"
        using lc(1)
        by (auto simp add: list_eq_iff_nth_eq nth_enumerate_eq)
      then show ?thesis by (simp add: chunkSets_zip)
    qed
    have rest: "concat (map (chunkSets e vs ts) (chunksOf 25 (zip r [off + 25..<off + 25 + length r])))
        = map (\<lambda>(i, k). SETEX k (JSON_stringify e (elemAt vs (int i))) (numAt ts ((i - off) mod 25)))
            (enumerate (off + 25) r)"
    proof -
      have "map (\<lambda>(i, k). SETEX k (JSON_stringify e (elemAt vs (int i))) (numAt ts ((i - (off + 25)) mod 25)))
              (enumerate (off + 25) r)
          = map (\<lambda>(i, k). SETEX k (JSON_stringify e (elemAt vs (int i))) (numAt ts ((i - off) mod 25)))
              (enumerate (off + 25) r)"
      proof (rule map_cong [OF refl])
        fix p assume pin: "p \<in> set (enumerate (off + 25) r)"
        obtain i k where p: "p = (i, k)" by (cases p)
        have i: "off + 25 \<le> i"
          using pin unfolding p in_set_enumerate_eq by simp
        have "i - off = (i - (off + 25)) + 25" using i by simp
        then have "(i - off) mod 25 = (i - (off + 25)) mod 25" by (metis mod_add_self2)
        then show "(case p of (i, k) \<Rightarrow> SETEX k (JSON_stringify e (elemAt vs (int i))) (numAt ts ((i - (off + 25)) mod 25)))
            = (case p of (i, k) \<Rightarrow> SETEX k (JSON_stringify e (elemAt vs (int i))) (numAt ts ((i - off) mod 25)))"
          by (simp add: p)
      qed
      then show ?thesis using 1 [rule_format, OF shorter, of "off + 25"] by simp
    qed
    have en: "enumerate off ks = enumerate off c @ enumerate (off + 25) r"
    proof (cases "25 \<le> length ks")
      case True
      then have "length c = 25" by (simp add: c_def)
      then show ?thesis by (simp add: ks enumerate_append_eq)
    next
      case False
      then show ?thesis by (simp add: c_def r_def)
    qed
    show ?thesis by (simp add: split first rest en)
  qed
qed

text \<open>
  What \<open>batchSetCache\<close> does, with the chunks flattened: the command for the key at
  position \<open>i\<close> carries the value at position \<open>i\<close> and the spread time-to-live at
  position \<open>i mod 25\<close>; the local cache gets the one at position \<open>i\<close>.
\<close>

lemma batchSetCache_unfold:
  "batchSetCache e keys vs ttls w =
     asyncMulti
       (map (\<lambda>(i, k). SETEX k (JSON_stringify e (elemAt vs (int i)))
                         (numAt (fst (spreadTtls ttls w)) (i mod 25)))
          (enumerate 0 keys))
       (fold (\<lambda>(index, key) st. setCacheLocal e key (elemAt vs (int index))
                                    (numAt (fst (spreadTtls ttls w)) index) st)
          (enumerate 0 keys) (snd (spreadTtls ttls w)))"
  using allSets [of e vs "fst (spreadTtls ttls w)" keys 0]
  by (simp add: batchSetCache_def split_beta Let_def getChunks_chunksOf swap_enumerate
      chunkSets_def [abs_def])

lemma batchSetCache_commands:
  "commands (batchSetCache e keys vs ttls w) =
     commands w @
       [MULTI (map (\<lambda>(i, k). SETEX k (JSON_stringify e (elemAt vs (int i)))
                              (numAt (fst (spreadTtls ttls w)) (i mod 25)))
                 (enumerate 0 keys))]"
proof -
  obtain d where d: "snd (spreadTtls ttls w) = w\<lparr>drawn := d\<rparr>"
    using spreadTtls_frame by blast
  show ?thesis
    using fold_setCacheLocal_frame [of e "\<lambda>index. elemAt vs (int index)"
        "numAt (fst (spreadTtls ttls w))" "enumerate 0 keys" "w\<lparr>drawn := d\<rparr>"]
    by (simp add: batchSetCache_unfold asyncMulti_def sent_def d)
qed

lemma batchSetCache_remote:
  "remote (batchSetCache e keys vs ttls w) =
     fold applyCommand
       (map (\<lambda>(i, k). SETEX k (JSON_stringify e (elemAt vs (int i)))
                         (numAt (fst (spreadTtls ttls w)) (i mod 25)))
          (enumerate 0 keys))
       (remote w)"
proof -
  obtain d where d: "snd (spreadTtls ttls w) = w\<lparr>drawn := d\<rparr>"
    using spreadTtls_frame by blast
  show ?thesis
    using fold_setCacheLocal_frame [of e "\<lambda>index. elemAt vs (int index)"
        "numAt (fst (spreadTtls ttls w))" "enumerate 0 keys" "w\<lparr>drawn := d\<rparr>"]
    by (simp add: batchSetCache_unfold asyncMulti_def sent_def d)
qed

lemma applyCommands_other:
  "\<forall>c\<in>set cs. \<exists>k' s t. c = SETEX k' s t \<and> k' \<noteq> k \<Longrightarrow>
   map_of (fold applyCommand cs r) k = map_of r k"
proof (induction cs arbitrary: r)
  case Nil
  then show ?case by simp
next
  case (Cons c cs)
  then obtain k' s t where c: "c = SETEX k' s t" and ne: "k' \<noteq> k" by auto
  have "map_of (applyCommand c r) k = map_of r k"
    using ne by (cases s; cases t) (simp_all add: c update_conv')
  then show ?case using Cons by simp
qed

lemma applyCommands_parse:
  "\<forall>c\<in>set cs. \<exists>k' so t. c = SETEX k' so t \<and> (\<forall>s. so = Some s \<longrightarrow> jsonParse e s \<noteq> None) \<Longrightarrow>
   (case map_of r k of None \<Rightarrow> True | Some (s, t) \<Rightarrow> s = [] \<or> jsonParse e s \<noteq> None) \<Longrightarrow>
   (case map_of (fold applyCommand cs r) k of
      None \<Rightarrow> True | Some (s, t) \<Rightarrow> s = [] \<or> jsonParse e s \<noteq> None)"
proof (induction cs arbitrary: r)
  case Nil
  then show ?case by simp
next
  case (Cons c cs)
  then obtain k' so t where c: "c = SETEX k' so t"
    and p: "\<forall>s. so = Some s \<longrightarrow> jsonParse e s \<noteq> None" by auto
  have "case map_of (applyCommand c r) k of
          None \<Rightarrow> True | Some (s, t) \<Rightarrow> s = [] \<or> jsonParse e s \<noteq> None"
    using Cons.prems(2) p by (cases so; cases t) (simp_all add: c update_conv')
  then show ?case using Cons.IH [of "applyCommand c r"] Cons.prems(1) by simp
qed

lemma applyCommands_nth:
  "distinct keys \<Longrightarrow> i < length keys \<Longrightarrow> S (off + i) = Some s \<Longrightarrow> T (off + i) = Some t \<Longrightarrow>
   validExpiry t \<Longrightarrow>
   map_of (fold applyCommand (map (\<lambda>(j, k). SETEX k (S j) (T j)) (enumerate off keys)) r) (keys ! i)
     = Some (s, t)"
proof (induction keys arbitrary: off r i)
  case Nil
  then show ?case by simp
next
  case (Cons k keys)
  show ?case
  proof (cases i)
    case 0
    have "k \<notin> set keys" using Cons.prems(1) by simp
    then have "\<forall>c\<in>set (map (\<lambda>(j, k). SETEX k (S j) (T j)) (enumerate (Suc off) keys)).
        \<exists>k' s t. c = SETEX k' s t \<and> k' \<noteq> k"
      by (auto simp: in_set_enumerate_eq)
    from applyCommands_other [OF this, of "applyCommand (SETEX k (S off) (T off)) r"]
    show ?thesis using 0 Cons.prems(3,4,5) by (simp add: update_conv')
  next
    case (Suc j)
    then have j: "j < length keys" "distinct keys" using Cons.prems by simp_all
    have "S (Suc off + j) = Some s" "T (Suc off + j) = Some t"
      using Cons.prems(3,4) Suc by simp_all
    from Cons.IH [OF j(2) j(1) this Cons.prems(5), of "applyCommand (SETEX k (S off) (T off)) r"]
    show ?thesis using Suc by simp
  qed
qed

lemma elemAt_cases: "elemAt vs i = Undefined \<or> elemAt vs i \<in> set vs"
proof (cases "0 \<le> i \<and> i < int (length vs)")
  case True
  then have "nat i < length vs" by linarith
  then show ?thesis using True by (simp add: elemAt_def)
next
  case False
  then have "elemAt vs i = Undefined" unfolding elemAt_def by (rule if_not_P)
  then show ?thesis by simp
qed

lemma batchSetCache_frame:
  "(k \<notin> set keys \<longrightarrow> map_of (remote (batchSetCache e keys vs ttls w)) k = map_of (remote w) k)
   \<and> filter isMGET (commands (batchSetCache e keys vs ttls w)) = filter isMGET (commands w)"
proof (intro conjI impI)
  assume "k \<notin> set keys"
  then have "\<forall>c\<in>set (map (\<lambda>(i, k). SETEX k (JSON_stringify e (elemAt vs (int i)))
                         (numAt (fst (spreadTtls ttls w)) (i mod 25))) (enumerate 0 keys)).
      \<exists>k' s t. c = SETEX k' s t \<and> k' \<noteq> k"
    by (auto simp: in_set_enumerate_eq)
  from applyCommands_other [OF this, of "remote w"]
  show "map_of (remote (batchSetCache e keys vs ttls w)) k = map_of (remote w) k"
    by (simp add: batchSetCache_remote)
next
  show "filter isMGET (commands (batchSetCache e keys vs ttls w)) = filter isMGET (commands w)"
    by (simp add: batchSetCache_commands)
qed

lemma batchSetCache_decodable:
  assumes "\<forall>v\<in>set vs. v \<noteq> Undefined \<longrightarrow> jsonParse e (jsonStringify e v) \<noteq> None"
    and "decodable e w k"
  shows "decodable e (batchSetCache e keys vs ttls w) k"
proof -
  have "\<forall>c\<in>set (map (\<lambda>(i, k). SETEX k (JSON_stringify e (elemAt vs (int i)))
                         (numAt (fst (spreadTtls ttls w)) (i mod 25))) (enumerate 0 keys)).
      \<exists>k' so t. c = SETEX k' so t \<and> (\<forall>s. so = Some s \<longrightarrow> jsonParse e s \<noteq> None)"
  proof
    fix c
    assume "c \<in> set (map (\<lambda>(i, k). SETEX k (JSON_stringify e (elemAt vs (int i)))
                         (numAt (fst (spreadTtls ttls w)) (i mod 25))) (enumerate 0 keys))"
    then obtain i k' where c: "c = SETEX k' (JSON_stringify e (elemAt vs (int i)))
                         (numAt (fst (spreadTtls ttls w)) (i mod 25))"
      by auto
    have "\<forall>s. JSON_stringify e (elemAt vs (int i)) = Some s \<longrightarrow> jsonParse e s \<noteq> None"
      using assms(1) elemAt_cases [of vs "int i"] by (auto simp: JSON_stringify_def)
    then show "\<exists>k' so t. c = SETEX k' so t \<and> (\<forall>s. so = Some s \<longrightarrow> jsonParse e s \<noteq> None)"
      using c by blast
  qed
  from applyCommands_parse [OF this, of "remote w" k] assms(2)
  show ?thesis by (simp add: decodable_def batchSetCache_remote)
qed

subsection \<open>One chunk\<close>

lemma batchProcessChunk_succeeds:
  assumes H1: "\<forall>x u. fst (handler x u) = Inr (f x)"
    and H2: "\<not> skipCache \<Longrightarrow> \<forall>x\<in>set payload. decodable e w (keyFn x)"
  shows "fst (batchProcessChunk e payload keyFn handler ttl skipCache w)
           = Inr (map (answer e w skipCache keyFn f) payload)
    \<and> (\<forall>k. k \<notin> keyFn ` set payload \<longrightarrow>
          map_of (remote (snd (batchProcessChunk e payload keyFn handler ttl skipCache w))) k
            = map_of (remote w) k)
    \<and> filter isMGET (commands (snd (batchProcessChunk e payload keyFn handler ttl skipCache w)))
        = filter isMGET (commands w)
            @ (if skipCache then [] else map MGET (chunksOf 100 (map keyFn payload)))
    \<and> ((\<forall>x\<in>set payload. f x \<noteq> Undefined \<longrightarrow> jsonParse e (jsonStringify e (f x)) \<noteq> None) \<longrightarrow>
        (\<forall>k. decodable e w k \<longrightarrow>
          decodable e (snd (batchProcessChunk e payload keyFn handler ttl skipCache w)) k))"
proof -
  define keys where "keys = map keyFn payload"
  define n where "n = length payload"
  define c where "c = (\<lambda>x. if skipCache then Null else cachedOrNull e w (keyFn x))"
  define cached where "cached = map c payload"
  define w1 where "w1 = (if skipCache then w
                          else w\<lparr>commands := commands w @ map MGET (chunksOf 100 keys)\<rparr>)"
  define missing where "missing = filter (\<lambda>index. cached ! index = Null) [0..<length cached]"
  define items where "items = map (\<lambda>index. payload ! index) missing"
  define vs where "vs = map f items"
  define paramKeys where
    "paramKeys = map snd (filter (\<lambda>(index, key). index \<in> set missing) (enumerate 0 keys))"
  define ttls where "ttls = map (\<lambda>v. if truthy v then ttl else min ttl (processTtl e)) vs"
  define out where "out = map (\<lambda>index. if index \<in> set missing
                                          then elemAt vs (indexOf missing index)
                                          else elemAt cached (int index)) [0..<length keys]"
  have len: "length cached = n" "length keys = n"
    by (simp_all add: cached_def keys_def n_def)
  have get: "(if skipCache then (Inr (replicate (length keys) Null), w)
              else batchGetCache e keys w) = (Inr cached, w1)"
  proof (cases skipCache)
    case True
    then show ?thesis
      by (simp add: cached_def c_def w1_def keys_def map_replicate_const)
  next
    case False
    then have "\<forall>key\<in>set keys. decodable e w key" using H2 by (simp add: keys_def)
    from batchGetCache_decodable [OF this] False show ?thesis
      by (simp add: cached_def c_def w1_def keys_def comp_def)
  qed
  have w1: "remote w1 = remote w"
    "filter isMGET (commands w1) = filter isMGET (commands w)
        @ (if skipCache then [] else map MGET (chunksOf 100 keys))"
    by (simp_all add: w1_def comp_def)
  have miss: "\<And>i. i < n \<Longrightarrow> (i \<in> set missing) = (c (payload ! i) = Null)"
    by (auto simp: missing_def cached_def n_def)
  have ans: "\<And>x. answer e w skipCache keyFn f x = (if c x = Null then f x else c x)"
    by (auto simp: answer_def c_def cachedOrNull_Null) (auto simp: cachedOrNull_def split: option.splits)
  have outv: "out = map (answer e w skipCache keyFn f) payload"
  proof (rule nth_equalityI)
    show "length out = length (map (answer e w skipCache keyFn f) payload)"
      by (simp add: out_def keys_def)
  next
    fix i assume "i < length out"
    then have i: "i < n" by (simp add: out_def len)
    show "out ! i = map (answer e w skipCache keyFn f) payload ! i"
    proof (cases "i \<in> set missing")
      case True
      from indexOf_member [OF True]
      have j: "0 \<le> indexOf missing i" "nat (indexOf missing i) < length missing"
        "missing ! nat (indexOf missing i) = i" by simp_all
      have "indexOf missing i < int (length missing)" using j by linarith
      then have "elemAt vs (indexOf missing i) = f (payload ! i)"
        using j by (simp add: elemAt_def vs_def items_def)
      then show ?thesis
        using True i miss [OF i] by (simp add: out_def len ans n_def)
    next
      case False
      have "elemAt cached (int i) = c (payload ! i)"
        using i by (simp add: elemAt_def cached_def n_def)
      then show ?thesis
        using False i miss [OF i] by (simp add: out_def len ans n_def)
    qed
  qed
  show ?thesis
  proof (cases "missing = []")
    case True
    have "batchProcessChunk e payload keyFn handler ttl skipCache w
            = (Inr (map (\<lambda>index. elemAt cached (int index)) [0..<length keys]), w1)"
      using get True
      by (simp add: batchProcessChunk_def Let_def keys_def [symmetric] missing_def [symmetric])
    moreover have "map (\<lambda>index. elemAt cached (int index)) [0..<length keys] = out"
      using True by (simp add: out_def)
    ultimately show ?thesis using outv w1 decodable_remote [OF w1(1), of e] by (simp add: keys_def)
  next
    case False
    obtain u where pool: "asyncPool (poolLimit e) items handler (upstream w1) = (Inr vs, u)"
      using asyncPool_total [OF H1, of "poolLimit e" items "upstream w1"]
      by (metis fst_conv surj_pair vs_def)
    have run: "batchProcessChunk e payload keyFn handler ttl skipCache w
            = (Inr out, batchSetCache e paramKeys vs ttls (w1\<lparr>upstream := u\<rparr>))"
      using get False pool
      by (simp add: batchProcessChunk_def Let_def keys_def [symmetric] missing_def [symmetric]
          items_def [symmetric] paramKeys_def [symmetric] ttls_def [symmetric] out_def [symmetric])
    have sub: "set paramKeys \<subseteq> keyFn ` set payload"
      by (auto simp: paramKeys_def keys_def in_set_enumerate_eq)
    have fr: "\<forall>k. k \<notin> keyFn ` set payload \<longrightarrow>
          map_of (remote (batchSetCache e paramKeys vs ttls (w1\<lparr>upstream := u\<rparr>))) k
            = map_of (remote w) k"
      using batchSetCache_frame [of _ paramKeys e vs ttls "w1\<lparr>upstream := u\<rparr>"] sub w1(1)
      by auto
    have cm: "filter isMGET (commands (batchSetCache e paramKeys vs ttls (w1\<lparr>upstream := u\<rparr>)))
        = filter isMGET (commands w1)"
      using batchSetCache_frame [of undefined paramKeys e vs ttls "w1\<lparr>upstream := u\<rparr>"] by simp
    have items: "set items \<subseteq> set payload"
      by (auto simp: items_def missing_def cached_def)
    have dec: "(\<forall>x\<in>set payload. f x \<noteq> Undefined \<longrightarrow> jsonParse e (jsonStringify e (f x)) \<noteq> None) \<longrightarrow>
        (\<forall>k. decodable e w k \<longrightarrow>
           decodable e (batchSetCache e paramKeys vs ttls (w1\<lparr>upstream := u\<rparr>)) k)"
    proof (intro allI impI)
      fix k
      assume H3: "\<forall>x\<in>set payload. f x \<noteq> Undefined \<longrightarrow> jsonParse e (jsonStringify e (f x)) \<noteq> None"
        and "decodable e w k"
      have good: "\<forall>v\<in>set vs. v \<noteq> Undefined \<longrightarrow> jsonParse e (jsonStringify e v) \<noteq> None"
        using H3 items by (auto simp: vs_def)
      have "decodable e (w1\<lparr>upstream := u\<rparr>) k"
        using \<open>decodable e w k\<close> decodable_remote [of "w1\<lparr>upstream := u\<rparr>" w e] w1(1) by simp
      then show "decodable e (batchSetCache e paramKeys vs ttls (w1\<lparr>upstream := u\<rparr>)) k"
        by (rule batchSetCache_decodable [OF good])
    qed
    show ?thesis using run outv fr cm w1(2) dec by (simp add: keys_def)
  qed
qed

lemma remoteValue_lookup:
  "map_of (remote w') k = map_of (remote w) k \<Longrightarrow> remoteValue e w' k = remoteValue e w k"
  by (simp add: remoteValue_def)

lemma attemptChunk_first:
  "process w = (Inr r, w1) \<Longrightarrow> attemptChunk retries process w = (Inr r, w1)"
  by (simp add: attemptChunk.simps [of retries process w])

lemma chunksOf_sizes: "0 < n \<Longrightarrow> \<forall>c\<in>set (chunksOf n xs). c \<noteq> [] \<and> length c \<le> n"
proof (induction n xs rule: chunksOf.induct)
  case (1 n xs)
  show ?case
  proof (cases "xs = []")
    case True
    then show ?thesis by simp
  next
    case False
    then show ?thesis using 1 by (simp add: chunksOf.simps [of n xs])
  qed
qed

subsection \<open>All chunks\<close>

lemma processChunks_answers:
  assumes H1: "\<forall>x u. fst (handler x u) = Inr (f x)"
  shows "\<forall>x\<in>set (concat cs). decodable e w (keyFn x) \<Longrightarrow>
    \<forall>x\<in>set (concat cs). f x \<noteq> Undefined \<longrightarrow> jsonParse e (jsonStringify e (f x)) \<noteq> None \<Longrightarrow>
    \<forall>c\<in>set cs. c \<noteq> [] \<and> length c \<le> 100 \<Longrightarrow>
    processChunks (\<lambda>chunk. batchProcessChunk e chunk keyFn handler ttl skipCache) cs acc w
        = (Inr (acc @ chunkAnswers (\<lambda>chunk st. snd (batchProcessChunk e chunk keyFn handler ttl skipCache st))
                        (\<lambda>st chunk. map (answer e st skipCache keyFn f) chunk) cs w),
           fold (\<lambda>chunk st. snd (batchProcessChunk e chunk keyFn handler ttl skipCache st)) cs w)
    \<and> (\<forall>k. decodable e w k \<longrightarrow>
          decodable e (fold (\<lambda>chunk st. snd (batchProcessChunk e chunk keyFn handler ttl skipCache st)) cs w) k)
    \<and> (\<forall>k. k \<notin> keyFn ` set (concat cs) \<longrightarrow>
          map_of (remote (fold (\<lambda>chunk st. snd (batchProcessChunk e chunk keyFn handler ttl skipCache st)) cs w)) k
            = map_of (remote w) k)
    \<and> length (filter isMGET (commands
          (fold (\<lambda>chunk st. snd (batchProcessChunk e chunk keyFn handler ttl skipCache st)) cs w)))
        = length (filter isMGET (commands w)) + (if skipCache then 0 else length cs)"
proof (induction cs arbitrary: acc w)
  case Nil
  then show ?case by simp
next
  case (Cons c cs)
  define r where "r = batchProcessChunk e c keyFn handler ttl skipCache w"
  have dc: "\<not> skipCache \<Longrightarrow> \<forall>x\<in>set c. decodable e w (keyFn x)"
    using Cons.prems(1) by simp
  have gc: "\<forall>x\<in>set c. f x \<noteq> Undefined \<longrightarrow> jsonParse e (jsonStringify e (f x)) \<noteq> None"
    using Cons.prems(2) by simp
  note chunk0 = batchProcessChunk_succeeds [OF H1 dc, of skipCache ttl, folded r_def]
  have chunk: "fst r = Inr (map (answer e w skipCache keyFn f) c)"
    "\<forall>k. k \<notin> keyFn ` set c \<longrightarrow> map_of (remote (snd r)) k = map_of (remote w) k"
    "filter isMGET (commands (snd r)) = filter isMGET (commands w)
        @ (if skipCache then [] else map MGET (chunksOf 100 (map keyFn c)))"
    "\<forall>k. decodable e w k \<longrightarrow> decodable e (snd r) k"
    using chunk0 gc by blast+
  have res: "r = (Inr (map (answer e w skipCache keyFn f) c), snd r)"
    using chunk by (metis prod.collapse)
  have one: "chunksOf 100 (map keyFn c) = [map keyFn c]"
    using Cons.prems(3) by (intro chunksOf_short) auto
  have d': "\<forall>x\<in>set (concat cs). decodable e (snd r) (keyFn x)"
    using Cons.prems(1) chunk by simp
  have g': "\<forall>x\<in>set (concat cs). f x \<noteq> Undefined \<longrightarrow> jsonParse e (jsonStringify e (f x)) \<noteq> None"
    using Cons.prems(2) by simp
  have l': "\<forall>c\<in>set cs. c \<noteq> [] \<and> length c \<le> 100" using Cons.prems(3) by simp
  note ih = Cons.IH [OF d' g' l', of "acc @ map (answer e w skipCache keyFn f) c"]
  have att: "attemptChunk 0 (batchProcessChunk e c keyFn handler ttl skipCache) w
      = (Inr (map (answer e w skipCache keyFn f) c), snd r)"
    using res by (intro attemptChunk_first) (simp add: r_def)
  have step: "processChunks (\<lambda>chunk. batchProcessChunk e chunk keyFn handler ttl skipCache) (c # cs) acc w
      = processChunks (\<lambda>chunk. batchProcessChunk e chunk keyFn handler ttl skipCache) cs
          (acc @ map (answer e w skipCache keyFn f) c) (snd r)"
    by (simp add: att)
  have cnt: "length (filter isMGET (commands (snd r)))
      = length (filter isMGET (commands w)) + (if skipCache then 0 else 1)"
    using chunk one by simp
  have fld: "fold (\<lambda>chunk st. snd (batchProcessChunk e chunk keyFn handler ttl skipCache st)) (c # cs) w
      = fold (\<lambda>chunk st. snd (batchProcessChunk e chunk keyFn handler ttl skipCache st)) cs (snd r)"
    by (simp add: r_def)
  have fr: "\<forall>k. k \<notin> keyFn ` set (concat (c # cs)) \<longrightarrow>
      map_of (remote (fold (\<lambda>chunk st. snd (batchProcessChunk e chunk keyFn handler ttl skipCache st)) cs (snd r))) k
        = map_of (remote w) k"
  proof (intro allI impI)
    fix k assume k: "k \<notin> keyFn ` set (concat (c # cs))"
    then have "k \<notin> keyFn ` set c" "k \<notin> keyFn ` set (concat cs)" by auto
    then show "map_of (remote (fold (\<lambda>chunk st. snd (batchProcessChunk e chunk keyFn handler ttl skipCache st)) cs (snd r))) k
        = map_of (remote w) k"
      using ih chunk by simp
  qed
  have dec: "\<forall>k. decodable e w k \<longrightarrow>
      decodable e (fold (\<lambda>chunk st. snd (batchProcessChunk e chunk keyFn handler ttl skipCache st)) cs (snd r)) k"
    using ih chunk by simp
  have ans: "chunkAnswers (\<lambda>chunk st. snd (batchProcessChunk e chunk keyFn handler ttl skipCache st))
                (\<lambda>st chunk. map (answer e st skipCache keyFn f) chunk) (c # cs) w
      = map (answer e w skipCache keyFn f) c
        @ chunkAnswers (\<lambda>chunk st. snd (batchProcessChunk e chunk keyFn handler ttl skipCache st))
            (\<lambda>st chunk. map (answer e st skipCache keyFn f) chunk) cs (snd r)"
    by (simp add: r_def)
  show ?case
    unfolding step fld ans using ih cnt fr dec by simp
qed

lemma chunkAnswers_chunksOf:
  "0 < n \<Longrightarrow>
   length (chunkAnswers S (\<lambda>st c. map (g st) c) (chunksOf n xs) w) = length xs
   \<and> (\<forall>i<length xs. chunkAnswers S (\<lambda>st c. map (g st) c) (chunksOf n xs) w ! i
         = g (fold S (take (i div n) (chunksOf n xs)) w) (xs ! i))"
proof (induction n xs arbitrary: w rule: chunksOf.induct)
  case (1 n xs)
  show ?case
  proof (cases "xs = []")
    case True
    then show ?thesis by simp
  next
    case False
    define c where "c = take n xs"
    define rest where "rest = chunkAnswers S (\<lambda>st c. map (g st) c) (chunksOf n (drop n xs)) (S c w)"
    have cs: "chunksOf n xs = c # chunksOf n (drop n xs)"
      using False 1(2) by (simp add: chunksOf.simps [of n xs] c_def)
    have ih: "length rest = length (drop n xs)"
      "\<And>i. i < length (drop n xs) \<Longrightarrow>
         rest ! i = g (fold S (take (i div n) (chunksOf n (drop n xs))) (S c w)) (drop n xs ! i)"
      using 1(1) [OF _ 1(2), of "S c w"] False 1(2) by (simp_all add: rest_def c_def)
    have all: "chunkAnswers S (\<lambda>st c. map (g st) c) (c # chunksOf n (drop n xs)) w = map (g w) c @ rest"
      by (simp add: rest_def)
    have len: "length (map (g w) c @ rest) = length xs"
      using ih(1) by (simp add: c_def)
    have nth: "\<forall>i<length xs. (map (g w) c @ rest) ! i
         = g (fold S (take (i div n) (c # chunksOf n (drop n xs))) w) (xs ! i)"
    proof (intro allI impI)
      fix i assume i: "i < length xs"
      show "(map (g w) c @ rest) ! i
         = g (fold S (take (i div n) (c # chunksOf n (drop n xs))) w) (xs ! i)"
      proof (cases "i < n")
        case True
        then have "i < length c" using i by (simp add: c_def)
        then have "(map (g w) c @ rest) ! i = g w (xs ! i)"
          by (simp add: nth_append c_def)
        then show ?thesis using True by simp
      next
        case False
        then have ge: "n \<le> i" by simp
        then have lc: "length c = n" using i by (simp add: c_def)
        have j: "i - n < length (drop n xs)" using i ge by simp
        have d: "i div n = Suc ((i - n) div n)"
          using ge 1(2) by (simp add: le_div_geq)
        have "(map (g w) c @ rest) ! i = rest ! (i - n)"
          using ge lc by (simp add: nth_append)
        also have "\<dots> = g (fold S (take ((i - n) div n) (chunksOf n (drop n xs))) (S c w)) (drop n xs ! (i - n))"
          by (rule ih(2) [OF j])
        also have "drop n xs ! (i - n) = xs ! i"
          using ge i by simp
        finally show ?thesis by (simp add: d)
      qed
    qed
    show ?thesis unfolding cs all using len nth by blast
  qed
qed

lemma take_chunksOf: "0 < n \<Longrightarrow> take j (chunksOf n xs) = chunksOf n (take (j * n) xs)"
proof (induction j arbitrary: xs)
  case 0
  then show ?case by simp
next
  case (Suc j)
  show ?case
  proof (cases "xs = []")
    case True
    then show ?thesis by simp
  next
    case False
    define m where "m = Suc j * n"
    have mn: "0 < m" "n \<le> m" "m - n = j * n" using Suc.prems by (simp_all add: m_def)
    have ne: "take m xs \<noteq> []" using False mn(1) by simp
    have b: "drop n (take m xs) = take (j * n) (drop n xs)"
      using mn(3) by (simp add: drop_take)
    have "chunksOf n (take m xs) = take n xs # chunksOf n (take (j * n) (drop n xs))"
      using ne Suc.prems mn(2) by (simp add: chunksOf.simps [of n "take m xs"] b min_def)
    moreover have "chunksOf n xs = take n xs # chunksOf n (drop n xs)"
      using False Suc.prems by (simp add: chunksOf.simps [of n xs])
    ultimately have "take (Suc j) (chunksOf n xs) = chunksOf n (take m xs)"
      using Suc.IH [OF Suc.prems, of "drop n xs"] by simp
    then show ?thesis unfolding m_def .
  qed
qed

text \<open>
  A batch whose handler succeeds, on texts that parse: the result, the state it leaves,
  and what it leaves untouched.
\<close>

lemma batchProcess_run:
  assumes H1: "\<forall>x u. fst (handler x u) = Inr (f x)"
    and H2: "\<forall>x\<in>set payload. decodable e w (keyFn x)"
    and H3: "\<forall>x\<in>set payload. f x \<noteq> Undefined \<longrightarrow> jsonParse e (jsonStringify e (f x)) \<noteq> None"
  shows "batchProcess e payload keyFn handler ttl skipCache w
        = (Inr (chunkAnswers (\<lambda>chunk st. snd (batchProcessChunk e chunk keyFn handler ttl skipCache st))
                  (\<lambda>st chunk. map (answer e st skipCache keyFn f) chunk) (chunksOf 100 payload) w),
           fold (\<lambda>chunk st. snd (batchProcessChunk e chunk keyFn handler ttl skipCache st))
             (chunksOf 100 payload) w)"
    and "\<forall>k. k \<notin> keyFn ` set payload \<longrightarrow>
          map_of (remote (snd (batchProcess e payload keyFn handler ttl skipCache w))) k = map_of (remote w) k"
    and "length (filter isMGET (commands (snd (batchProcess e payload keyFn handler ttl skipCache w))))
        = length (filter isMGET (commands w)) + (if skipCache then 0 else (length payload + 99) div 100)"
proof -
  have d: "\<forall>x\<in>set (concat (chunksOf 100 payload)). decodable e w (keyFn x)"
    using H2 by (simp add: concat_chunksOf)
  have g: "\<forall>x\<in>set (concat (chunksOf 100 payload)).
      f x \<noteq> Undefined \<longrightarrow> jsonParse e (jsonStringify e (f x)) \<noteq> None"
    using H3 by (simp add: concat_chunksOf)
  have l: "\<forall>c\<in>set (chunksOf 100 payload). c \<noteq> [] \<and> length c \<le> 100"
    by (intro chunksOf_sizes) simp
  have n: "length (chunksOf 100 payload) = (length payload + 99) div 100"
    using length_chunksOf [of 100 payload] by simp
  note run = processChunks_answers [OF H1 d g l, of ttl skipCache "[]"]
  show "batchProcess e payload keyFn handler ttl skipCache w
        = (Inr (chunkAnswers (\<lambda>chunk st. snd (batchProcessChunk e chunk keyFn handler ttl skipCache st))
                  (\<lambda>st chunk. map (answer e st skipCache keyFn f) chunk) (chunksOf 100 payload) w),
           fold (\<lambda>chunk st. snd (batchProcessChunk e chunk keyFn handler ttl skipCache st))
             (chunksOf 100 payload) w)"
    using run by (simp add: batchProcess_def getChunks_chunksOf)
  then have s: "snd (batchProcess e payload keyFn handler ttl skipCache w)
      = fold (\<lambda>chunk st. snd (batchProcessChunk e chunk keyFn handler ttl skipCache st))
             (chunksOf 100 payload) w"
    by simp
  show "\<forall>k. k \<notin> keyFn ` set payload \<longrightarrow>
          map_of (remote (snd (batchProcess e payload keyFn handler ttl skipCache w))) k = map_of (remote w) k"
    unfolding s using run by (simp add: concat_chunksOf)
  show "length (filter isMGET (commands (snd (batchProcess e payload keyFn handler ttl skipCache w))))
        = length (filter isMGET (commands w)) + (if skipCache then 0 else (length payload + 99) div 100)"
    unfolding s using run n by simp
qed

text \<open>
  The element at position \<open>i\<close> of the result is the answer for item \<open>i\<close> on the state
  that the batch of the items before its chunk leaves.
\<close>

lemma batchProcess_nth:
  assumes H1: "\<forall>x u. fst (handler x u) = Inr (f x)"
    and H2: "\<forall>x\<in>set payload. decodable e w (keyFn x)"
    and H3: "\<forall>x\<in>set payload. f x \<noteq> Undefined \<longrightarrow> jsonParse e (jsonStringify e (f x)) \<noteq> None"
  shows "\<exists>res. fst (batchProcess e payload keyFn handler ttl skipCache w) = Inr res
      \<and> length res = length payload
      \<and> (\<forall>i<length payload.
            res ! i = answer e (snd (batchProcess e (take (i div 100 * 100) payload) keyFn handler ttl skipCache w))
                        skipCache keyFn f (payload ! i))"
proof -
  define S where "S = (\<lambda>chunk st. snd (batchProcessChunk e chunk keyFn handler ttl skipCache st))"
  define res where "res = chunkAnswers S (\<lambda>st chunk. map (answer e st skipCache keyFn f) chunk)
                            (chunksOf 100 payload) w"
  have out: "fst (batchProcess e payload keyFn handler ttl skipCache w) = Inr res"
    using batchProcess_run(1) [OF H1 H2 H3, of ttl skipCache] by (simp add: res_def S_def)
  note ca = chunkAnswers_chunksOf [of 100 S "\<lambda>st. answer e st skipCache keyFn f" payload w, folded res_def]
  have len: "length res = length payload" using ca by simp
  have nth: "\<forall>i<length payload.
      res ! i = answer e (snd (batchProcess e (take (i div 100 * 100) payload) keyFn handler ttl skipCache w))
                  skipCache keyFn f (payload ! i)"
  proof (intro allI impI)
    fix i assume i: "i < length payload"
    define before where "before = take (i div 100 * 100) payload"
    have sub: "set before \<subseteq> set payload" unfolding before_def by (rule set_take_subset)
    have H2': "\<forall>x\<in>set before. decodable e w (keyFn x)" using H2 sub by blast
    have H3': "\<forall>x\<in>set before. f x \<noteq> Undefined \<longrightarrow> jsonParse e (jsonStringify e (f x)) \<noteq> None"
      using H3 sub by blast
    have "snd (batchProcess e before keyFn handler ttl skipCache w) = fold S (chunksOf 100 before) w"
      using batchProcess_run(1) [OF H1 H2' H3', of ttl skipCache] by (simp add: S_def)
    also have "chunksOf 100 before = take (i div 100) (chunksOf 100 payload)"
      using take_chunksOf [of 100 "i div 100" payload] by (simp add: before_def)
    finally have st: "fold S (take (i div 100) (chunksOf 100 payload)) w
        = snd (batchProcess e before keyFn handler ttl skipCache w)"
      by simp
    show "res ! i = answer e (snd (batchProcess e (take (i div 100 * 100) payload) keyFn handler ttl skipCache w))
                  skipCache keyFn f (payload ! i)"
      using ca i st by (simp add: before_def)
  qed
  show ?thesis using out len nth by blast
qed

subsection \<open>A chunk of which Redis holds nothing\<close>

lemma batchProcessChunk_all_missing:
  assumes "\<forall>x u. handler x u = (Inr (f x), u)" and "payload \<noteq> []"
    and "\<not> skipCache \<Longrightarrow> \<forall>x\<in>set payload. map_of (remote w) (keyFn x) = None"
  shows "batchProcessChunk e payload keyFn handler ttl skipCache w
     = (Inr (map f payload),
        batchSetCache e (map keyFn payload) (map f payload)
          (map (\<lambda>v. if truthy v then ttl else min ttl (processTtl e)) (map f payload))
          (if skipCache then w
           else w\<lparr>commands := commands w @ map MGET (chunksOf 100 (map keyFn payload))\<rparr>))"
proof -
  have pool: "\<And>xs u. asyncPool (poolLimit e) xs handler u = (Inr (map f xs), u)"
  proof -
    fix xs u show "asyncPool (poolLimit e) xs handler u = (Inr (map f xs), u)"
      by (induction xs) (simp_all add: assms(1))
  qed
  have missing: "filter (\<lambda>index. replicate (length payload) Null ! index = Null) [0..<length payload]
      = [0..<length payload]"
    by (rule filter_True) simp
  have items: "map (\<lambda>index. payload ! index) [0..<length payload] = payload"
    by (rule map_nth)
  have keys: "map snd (filter (\<lambda>(index, key). index < length payload)
                         (enumerate 0 (map keyFn payload))) = map keyFn payload"
  proof -
    have "filter (\<lambda>(index, key). index < length payload) (enumerate 0 (map keyFn payload))
        = enumerate 0 (map keyFn payload)"
      by (rule filter_True) (auto simp: in_set_enumerate_eq)
    then show ?thesis by simp
  qed
  have dec: "\<not> skipCache \<Longrightarrow> \<forall>x\<in>set payload. decodable e w (keyFn x)"
    using assms(3) by (simp add: decodable_def)
  have none: "\<And>x. x \<in> set payload \<Longrightarrow> answer e w skipCache keyFn f x = f x"
    using assms(3) by (cases skipCache) (simp_all add: answer_def remoteValue_def)
  have "fst (batchProcessChunk e payload keyFn handler ttl skipCache w)
      = Inr (map (answer e w skipCache keyFn f) payload)"
    using batchProcessChunk_succeeds [of handler f skipCache payload e w keyFn ttl] assms(1) dec
    by simp
  also have "map (answer e w skipCache keyFn f) payload = map f payload"
    using none by (intro map_cong refl)
  finally have fst_out: "fst (batchProcessChunk e payload keyFn handler ttl skipCache w) = Inr (map f payload)" .
  have "snd (batchProcessChunk e payload keyFn handler ttl skipCache w)
      = batchSetCache e (map keyFn payload) (map f payload)
          (map (\<lambda>v. if truthy v then ttl else min ttl (processTtl e)) (map f payload))
          (if skipCache then w
           else w\<lparr>commands := commands w @ map MGET (chunksOf 100 (map keyFn payload))\<rparr>)"
  proof (cases skipCache)
    case True
    then show ?thesis
      using assms(2)
      by (simp add: batchProcessChunk_def Let_def missing items keys pool)
  next
    case False
    have "map (\<lambda>x. cachedOrNull e w (keyFn x)) payload = map (\<lambda>x. Null) payload"
      using assms(3) [OF False] by (intro map_cong refl) (simp add: cachedOrNull_def remoteValue_def)
    then have nulls: "map (cachedOrNull e w) (map keyFn payload) = replicate (length payload) Null"
      by (simp add: comp_def map_replicate_const)
    have "\<forall>key\<in>set (map keyFn payload). decodable e w key" using dec [OF False] by simp
    from batchGetCache_decodable [OF this]
    have get: "batchGetCache e (map keyFn payload) w
        = (Inr (replicate (length payload) Null),
           w\<lparr>commands := commands w @ map MGET (chunksOf 100 (map keyFn payload))\<rparr>)"
      unfolding nulls .
    show ?thesis
      using assms(2) False
      by (simp add: batchProcessChunk_def Let_def get missing items keys pool)
  qed
  then show ?thesis using fst_out by (metis prod.collapse)
qed

lemma spreadTtl_half:
  assumes "\<forall>n. randoms w n = 1 / 2"
  shows "fst (spreadTtl t w) = (if 300 \<le> t then t + of_int \<lfloor>1 / 2 * ((t * 10) / 100)\<rfloor> else t)"
proof -
  have r: "randoms w (drawn w) = 1 / 2" "randoms w (Suc (drawn w)) = 1 / 2"
    using assms by blast+
  show ?thesis
    by (simp add: spreadTtl_def Math_random_def Math_round_def r)
qed

lemma spreadTtls_half:
  "\<forall>n. randoms w n = 1 / 2 \<Longrightarrow>
   fst (spreadTtls ts w)
     = map (\<lambda>t. if 300 \<le> t then t + of_int \<lfloor>1 / 2 * ((t * 10) / 100)\<rfloor> else t) ts"
proof (induction ts arbitrary: w)
  case Nil
  then show ?case by simp
next
  case (Cons t ts)
  obtain d where d: "snd (spreadTtl t w) = w\<lparr>drawn := d\<rparr>"
    using spreadTtl_frame by blast
  have "\<forall>n. randoms (w\<lparr>drawn := d\<rparr>) n = 1 / 2" using Cons.prems by simp
  from Cons.IH [OF this] spreadTtl_half [OF Cons.prems, of t]
  show ?case by (simp add: split_beta d)
qed

lemma batchProcess_one_chunk:
  assumes "payload \<noteq> []" and "length payload \<le> 100"
    and "batchProcessChunk e payload keyFn handler ttl skipCache w = (Inr r, w1)"
  shows "batchProcess e payload keyFn handler ttl skipCache w = (Inr r, w1)"
proof -
  have "getChunks payload 100 = [payload]"
    using assms(1,2) by (simp add: getChunks_chunksOf chunksOf_short)
  then show ?thesis
    using attemptChunk_first [of "batchProcessChunk e payload keyFn handler ttl skipCache" w r w1 0]
      assms(3)
    by (simp add: batchProcess_def)
qed

subsection \<open>The result of a batch\<close>

lemma keyOf_inj: "(keyOf a = keyOf b) = (a = b)"
proof
  assume "keyOf a = keyOf b"
  then have "length (keyOf a) = length (keyOf b)" by simp
  then show "a = b" by (simp add: keyOf_def)
qed simp

lemma keyOf_1: "(keyOf x = ''item:i'') = (x = 1)" "(''item:i'' = keyOf x) = (x = 1)"
proof -
  have "keyOf (Suc 0) = ''item:i''" by (simp add: keyOf_def)
  then show "(keyOf x = ''item:i'') = (x = 1)" using keyOf_inj [of x "Suc 0"] by simp
  then show "(''item:i'' = keyOf x) = (x = 1)" by auto
qed

text \<open>
  C1, as the claim states it, fails for a key function that gives two items in different
  chunks the same key, and for a stored \<^verbatim>\<open>null\<close>. Of 101 items on an empty Redis, with a
  handler that returns the number of its item, item 100 has the key of item 0: Redis
  holds nothing for that key when the batch starts, but the first chunk writes the result
  of item 0 under it before the second chunk reads, and the element for item 100 is 0,
  not the handler's result 100. And where Redis holds the text \<^verbatim>\<open>null\<close> for the key of
  item 7, the element for item 7 is the handler's result 7, not the value held: the
  batch reads \<^verbatim>\<open>null\<close> as a miss.
\<close>

theorem batchProcess_shared_key_counterexample:
  "map_of (remote w0) (sharedKey 100) = None
   \<and> fst (numbered 100 ()) = Inr (Num 100)
   \<and> map_sum id (\<lambda>res. (length res, res ! 100))
        (fst (batchProcess conf [0..<101] sharedKey numbered 600 False w0)) = Inr (101, Num 0)
   \<and> map_option (\<lambda>(s, t). jsonParse conf s) (map_of (remote wNull) (keyOf 7)) = Some (Some Null)
   \<and> fst (numbered 7 ()) = Inr (Num 7)
   \<and> fst (batchProcess conf [7] keyOf numbered 600 False wNull) = Inr [Num 7]"
proof -
  define f :: "nat \<Rightarrow> jsval" where "f = (\<lambda>x. Num (int x))"
  have h: "\<forall>x u. numbered x u = (Inr (f x), u)"
    by (simp add: numbered_def f_def)
  have h1: "\<forall>x u. fst (numbered x u) = Inr (f x)"
    by (simp add: h)
  have h3: "\<And>xs. \<forall>x\<in>set xs. f x \<noteq> Undefined \<longrightarrow> jsonParse conf (jsonStringify conf (f x)) \<noteq> None"
    by (simp add: f_def conf_def sampleParse_def sampleStringify_def)
  have k0: "sharedKey 100 = keyOf 0" "sharedKey 0 = keyOf 0"
    by (simp_all add: sharedKey_def)
  define keys where "keys = map sharedKey [0..<100]"
  define vs where "vs = map f [0..<100]"
  define ttls :: "real list" where
    "ttls = map (\<lambda>v. if truthy v then 600 else min 600 (processTtl conf)) vs"
  define w1 where "w1 = w0\<lparr>commands := commands w0 @ map MGET (chunksOf 100 keys)\<rparr>"
  define w2 where "w2 = batchSetCache conf keys vs ttls w1"
  have empty: "\<forall>x\<in>set [0..<100]. map_of (remote w0) (sharedKey x) = None"
    by (simp add: w0_def)
  have chunk: "batchProcessChunk conf [0..<100] sharedKey numbered 600 False w0 = (Inr vs, w2)"
    using batchProcessChunk_all_missing [where skipCache = False and e = conf and ttl = 600, OF h _ empty]
    by (simp add: w2_def w1_def ttls_def vs_def keys_def)
  have first: "batchProcess conf [0..<100] sharedKey numbered 600 False w0 = (Inr vs, w2)"
    by (rule batchProcess_one_chunk [OF _ _ chunk]) simp_all
  have dk: "distinct keys"
    unfolding keys_def distinct_map
  proof (intro conjI inj_onI)
    show "distinct [0..<100]" by simp
  next
    fix a b assume "a \<in> set [0..<100]" "b \<in> set [0..<100]" "sharedKey a = sharedKey b"
    then show "a = b" by (simp add: sharedKey_def keyOf_inj)
  qed
  have half: "\<forall>n. randoms w1 n = 1 / 2" by (simp add: w1_def w0_def)
  have t0: "numAt (fst (spreadTtls ttls w1)) 0 = Some 60"
    unfolding spreadTtls_half [OF half]
    by (simp add: numAt_def ttls_def vs_def f_def conf_def)
  have s0: "JSON_stringify conf (elemAt vs 0) = Some ''0''"
    by (simp add: JSON_stringify_def elemAt_def vs_def f_def conf_def sampleStringify_def)
  have "map_of (remote w2) (keys ! 0) = Some (''0'', 60)"
    unfolding w2_def batchSetCache_remote
    by (rule applyCommands_nth [OF dk]) (simp_all add: keys_def s0 t0 validExpiry_def)
  then have held: "remoteValue conf w2 (sharedKey 100) = Some (Num 0)"
    by (simp add: remoteValue_def keys_def k0 conf_def sampleParse_def)
  have d0: "\<forall>x\<in>set [0..<101]. decodable conf w0 (sharedKey x)"
    by (simp add: decodable_def w0_def)
  from batchProcess_nth [OF h1 d0 h3, of 600 False]
  obtain res where res: "fst (batchProcess conf [0..<101] sharedKey numbered 600 False w0) = Inr res"
    "length res = length [0..<101]"
    "\<forall>i<length [0..<101].
            res ! i = answer conf (snd (batchProcess conf (take (i div 100 * 100) [0..<101]) sharedKey numbered 600 False w0))
                        False sharedKey f ([0..<101] ! i)"
    by blast
  have "res ! 100 = answer conf (snd (batchProcess conf (take (100 div 100 * 100) [0..<101]) sharedKey numbered 600 False w0))
                        False sharedKey f ([0..<101] ! 100)"
    using res(3) by simp
  also have "take (100 div 100 * 100) [0..<101] = [0..<100]"
    by (simp add: take_upt)
  also have "[0..<101] ! 100 = (100 :: nat)"
    using nth_upt [of 0 100 101] by simp
  finally have r100: "res ! 100 = Num 0"
    by (simp add: first answer_def held)
  have k7: "keyOf 7 = ''item:iiiiiii''"
    by (simp add: keyOf_def eval_nat_numeral)
  have d7: "\<forall>x\<in>set [7]. decodable conf wNull (keyOf x)"
    by (simp add: decodable_def wNull_def sample_defs k7)
  have none_before: "batchProcess conf [] keyOf numbered 600 False wNull = (Inr [], wNull)"
    by (simp add: batchProcess_def getChunks_def)
  from batchProcess_nth [OF h1 d7 h3, of 600 False]
  obtain res7 where res7: "fst (batchProcess conf [7] keyOf numbered 600 False wNull) = Inr res7"
    "length res7 = length [7 :: nat]"
    "\<forall>i<length [7 :: nat].
            res7 ! i = answer conf (snd (batchProcess conf (take (i div 100 * 100) [7]) keyOf numbered 600 False wNull))
                        False keyOf f ([7] ! i)"
    by blast
  have "res7 ! 0 = answer conf (snd (batchProcess conf [] keyOf numbered 600 False wNull)) False keyOf f 7"
    using res7(3) by simp
  also have "snd (batchProcess conf [] keyOf numbered 600 False wNull) = wNull"
    using none_before by simp
  finally have "res7 ! 0 = answer conf wNull False keyOf f 7" .
  moreover have "remoteValue conf wNull (keyOf 7) = None"
    by (simp add: remoteValue_def wNull_def sample_defs k7)
  ultimately have "res7 ! 0 = Num 7"
    by (simp add: answer_def f_def)
  then have r7: "res7 = [Num 7]"
    using res7(2) by (cases res7) simp_all
  show ?thesis
    using res(1,2) r100 res7(1) r7
    by (simp add: k0 w0_def wNull_def k7 conf_def sampleParse_def numbered_def)
qed

text \<open>
  C1, amended. Let the handler succeed on every item \<open>x\<close> with the value \<open>f x\<close>, let
  every text that Redis holds for a key of the batch parse, and let the text of every
  result parse. Redis holds a value for a key when it holds a text for it that is not
  empty and does not decode to \<^verbatim>\<open>null\<close>. Then \<open>batchProcess\<close> cuts the items into
  consecutive chunks of 100 and returns one element per item, in the order of the items.
  The element for an item is the value Redis holds for the item's key when the item's
  chunk starts, that is, after the batch of the items of the chunks before it, and the
  handler's result for the item when Redis holds none then. For an item whose key is not
  the key of an item in an earlier chunk this is the value Redis held when the batch
  started. One multi-get is sent per chunk, so three for 250 items. With \<open>skipCache\<close>
  the element is the handler's result for every item and no multi-get is sent.
\<close>

theorem batchProcess_ordered:
  assumes "\<forall>x u. fst (handler x u) = Inr (f x)"
    and "\<forall>x\<in>set payload. decodable e w (keyFn x)"
    and "\<forall>x\<in>set payload. f x \<noteq> Undefined \<longrightarrow> jsonParse e (jsonStringify e (f x)) \<noteq> None"
  shows "getChunks payload 100 = chunksOf 100 payload
    \<and> (\<exists>res. fst (batchProcess e payload keyFn handler ttl False w) = Inr res
          \<and> length res = length payload
          \<and> (\<forall>i<length payload.
                res ! i = (case remoteValue e
                                  (snd (batchProcess e (take (i div 100 * 100) payload) keyFn handler ttl False w))
                                  (keyFn (payload ! i)) of
                             Some v \<Rightarrow> v
                           | None \<Rightarrow> f (payload ! i)))
          \<and> (\<forall>i<length payload.
                (\<forall>j<i div 100 * 100. keyFn (payload ! j) \<noteq> keyFn (payload ! i)) \<longrightarrow>
                res ! i = (case remoteValue e w (keyFn (payload ! i)) of
                             Some v \<Rightarrow> v
                           | None \<Rightarrow> f (payload ! i))))
    \<and> length (filter isMGET (commands (snd (batchProcess e payload keyFn handler ttl False w))))
        = length (filter isMGET (commands w)) + (length payload + 99) div 100
    \<and> fst (batchProcess e payload keyFn handler ttl True w) = Inr (map f payload)
    \<and> length (filter isMGET (commands (snd (batchProcess e payload keyFn handler ttl True w))))
        = length (filter isMGET (commands w))"
proof -
  from batchProcess_nth [OF assms, of ttl False]
  obtain res where res: "fst (batchProcess e payload keyFn handler ttl False w) = Inr res"
    "length res = length payload"
    "\<And>i. i < length payload \<Longrightarrow>
        res ! i = answer e (snd (batchProcess e (take (i div 100 * 100) payload) keyFn handler ttl False w))
                    False keyFn f (payload ! i)"
    by blast
  have staged: "\<forall>i<length payload.
                res ! i = (case remoteValue e
                                  (snd (batchProcess e (take (i div 100 * 100) payload) keyFn handler ttl False w))
                                  (keyFn (payload ! i)) of
                             Some v \<Rightarrow> v
                           | None \<Rightarrow> f (payload ! i))"
    using res(3) by (simp add: answer_def)
  have initial: "\<forall>i<length payload.
                (\<forall>j<i div 100 * 100. keyFn (payload ! j) \<noteq> keyFn (payload ! i)) \<longrightarrow>
                res ! i = (case remoteValue e w (keyFn (payload ! i)) of
                             Some v \<Rightarrow> v
                           | None \<Rightarrow> f (payload ! i))"
  proof (intro allI impI)
    fix i assume i: "i < length payload"
      and fresh: "\<forall>j<i div 100 * 100. keyFn (payload ! j) \<noteq> keyFn (payload ! i)"
    define before where "before = take (i div 100 * 100) payload"
    have sub: "set before \<subseteq> set payload" unfolding before_def by (rule set_take_subset)
    have H2': "\<forall>x\<in>set before. decodable e w (keyFn x)" using assms(2) sub by blast
    have H3': "\<forall>x\<in>set before. f x \<noteq> Undefined \<longrightarrow> jsonParse e (jsonStringify e (f x)) \<noteq> None"
      using assms(3) sub by blast
    have "keyFn (payload ! i) \<notin> keyFn ` set before"
    proof
      assume "keyFn (payload ! i) \<in> keyFn ` set before"
      then obtain x where x: "x \<in> set before" "keyFn x = keyFn (payload ! i)" by auto
      then obtain j where j: "j < length before" "before ! j = x"
        by (auto simp: in_set_conv_nth)
      have "j < i div 100 * 100" "payload ! j = x" using j by (simp_all add: before_def)
      then show False using fresh x(2) by auto
    qed
    then have "map_of (remote (snd (batchProcess e before keyFn handler ttl False w))) (keyFn (payload ! i))
        = map_of (remote w) (keyFn (payload ! i))"
      using batchProcess_run(2) [OF assms(1) H2' H3', of ttl False] by blast
    from remoteValue_lookup [OF this, of e]
    show "res ! i = (case remoteValue e w (keyFn (payload ! i)) of
                             Some v \<Rightarrow> v
                           | None \<Rightarrow> f (payload ! i))"
      using staged i by (simp add: before_def)
  qed
  from batchProcess_nth [OF assms, of ttl True]
  obtain res' where res': "fst (batchProcess e payload keyFn handler ttl True w) = Inr res'"
    "length res' = length payload"
    "\<And>i. i < length payload \<Longrightarrow>
        res' ! i = answer e (snd (batchProcess e (take (i div 100 * 100) payload) keyFn handler ttl True w))
                    True keyFn f (payload ! i)"
    by blast
  have "res' = map f payload"
    using res'(2,3) by (intro nth_equalityI) (simp_all add: answer_def)
  then have skip: "fst (batchProcess e payload keyFn handler ttl True w) = Inr (map f payload)"
    using res'(1) by simp
  have "\<exists>res. fst (batchProcess e payload keyFn handler ttl False w) = Inr res
          \<and> length res = length payload
          \<and> (\<forall>i<length payload.
                res ! i = (case remoteValue e
                                  (snd (batchProcess e (take (i div 100 * 100) payload) keyFn handler ttl False w))
                                  (keyFn (payload ! i)) of
                             Some v \<Rightarrow> v
                           | None \<Rightarrow> f (payload ! i)))
          \<and> (\<forall>i<length payload.
                (\<forall>j<i div 100 * 100. keyFn (payload ! j) \<noteq> keyFn (payload ! i)) \<longrightarrow>
                res ! i = (case remoteValue e w (keyFn (payload ! i)) of
                             Some v \<Rightarrow> v
                           | None \<Rightarrow> f (payload ! i)))"
    using res(1,2) staged initial by blast
  then show ?thesis
    using skip batchProcess_run(3) [OF assms, of ttl False] batchProcess_run(3) [OF assms, of ttl True]
    by (simp add: getChunks_chunksOf)
qed

lemma remoteValue_wHit:
  "remoteValue conf wHit (keyOf x) = (if x = 1 then Some (Num 5) else None)"
  by (simp add: remoteValue_def wHit_def sample_defs keyOf_1)

text \<open>
  A batch of 250 items whose keys differ, on a state where Redis holds 5 for item 1 only:
  250 results in order, item 1 answered from Redis, and three multi-gets.
\<close>

theorem batchProcess_ordered_witness:
  "fst (batchProcess conf [0..<250] keyOf numbered 600 False wHit)
     = Inr (map (\<lambda>x. if x = 1 then Num 5 else Num (int x)) [0..<250])
   \<and> length (filter isMGET (commands (snd (batchProcess conf [0..<250] keyOf numbered 600 False wHit)))) = 3
   \<and> fst (batchProcess conf [0..<250] keyOf numbered 600 True wHit)
     = Inr (map (\<lambda>x. Num (int x)) [0..<250])"
proof -
  have h1: "\<forall>x u. fst (numbered x u) = Inr (Num (int x))"
    by (simp add: numbered_def)
  have h2: "\<forall>x\<in>set [0..<250]. decodable conf wHit (keyOf x)"
    by (simp add: decodable_def wHit_def sample_defs)
  have h3: "\<forall>x\<in>set [0..<250]. Num (int x) \<noteq> Undefined \<longrightarrow>
      jsonParse conf (jsonStringify conf (Num (int x))) \<noteq> None"
    by (simp add: conf_def sampleParse_def sampleStringify_def)
  have c: "commands wHit = []"
    by (simp add: wHit_def w0_def)
  note all = batchProcess_ordered [OF h1 h2 h3, of 600]
  from all obtain res where res: "fst (batchProcess conf [0..<250] keyOf numbered 600 False wHit) = Inr res"
    "length res = length [0..<250]"
    "\<forall>i<length [0..<250].
        (\<forall>j<i div 100 * 100. keyOf ([0..<250] ! j) \<noteq> keyOf ([0..<250] ! i)) \<longrightarrow>
        res ! i = (case remoteValue conf wHit (keyOf ([0..<250] ! i)) of
                     Some v \<Rightarrow> v
                   | None \<Rightarrow> Num (int ([0..<250] ! i)))"
    by blast
  have "res = map (\<lambda>x. if x = 1 then Num 5 else Num (int x)) [0..<250]"
  proof (rule nth_equalityI)
    show "length res = length (map (\<lambda>x. if x = 1 then Num 5 else Num (int x)) [0..<250])"
      using res(2) by simp
  next
    fix i assume "i < length res"
    then have i: "i < 250" using res(2) by simp
    have "\<forall>j<i div 100 * 100. keyOf ([0..<250] ! j) \<noteq> keyOf ([0..<250] ! i)"
    proof (intro allI impI)
      fix j assume "j < i div 100 * 100"
      moreover have "i div 100 * 100 \<le> i" by simp
      ultimately have "j < i" by linarith
      then show "keyOf ([0..<250] ! j) \<noteq> keyOf ([0..<250] ! i)"
        using i by (simp add: keyOf_inj)
    qed
    then have "res ! i = (case remoteValue conf wHit (keyOf ([0..<250] ! i)) of
                     Some v \<Rightarrow> v
                   | None \<Rightarrow> Num (int ([0..<250] ! i)))"
      using res(3) i by simp
    then show "res ! i = map (\<lambda>x. if x = 1 then Num 5 else Num (int x)) [0..<250] ! i"
      using i by (simp add: remoteValue_wHit)
  qed
  then show ?thesis
    using res(1) all by (simp add: c)
qed

section \<open>Writing a batch back\<close>

lemma fold_setCacheLocal_other:
  "k \<notin> set keys \<Longrightarrow>
   localCache (fold (\<lambda>(index, key) w. setCacheLocal e key (F index) (G index) w)
                 (enumerate off keys) w) k = localCache w k"
  by (induction keys arbitrary: off w) (simp_all add: setCacheLocal_def setCacheValue_def)

lemma fold_setCacheLocal_nth:
  "distinct keys \<Longrightarrow> i < length keys \<Longrightarrow>
   localCache (fold (\<lambda>(index, key) w. setCacheLocal e key (F index) (G index) w)
                 (enumerate off keys) w) (keys ! i)
     = Some (F (off + i), case G (off + i) of None \<Rightarrow> cacheTtl e | Some t \<Rightarrow> t)"
proof (induction keys arbitrary: off w i)
  case Nil
  then show ?case by simp
next
  case (Cons k keys)
  show ?case
  proof (cases i)
    case 0
    have "k \<notin> set keys" using Cons.prems(1) by simp
    from fold_setCacheLocal_other [OF this, of e F G "Suc off" "setCacheLocal e k (F off) (G off) w"]
    show ?thesis using 0 by (simp add: setCacheLocal_def setCacheValue_def)
  next
    case (Suc j)
    then have "j < length keys" "distinct keys" using Cons.prems by simp_all
    from Cons.IH [OF this(2) this(1), of "Suc off" "setCacheLocal e k (F off) (G off) w"]
    show ?thesis using Suc by simp
  qed
qed

lemma batchSetCache_local:
  assumes "distinct keys" and "i < length keys"
  shows "localCache (batchSetCache e keys vs ttls w) (keys ! i)
     = Some (elemAt vs (int i),
             case numAt (fst (spreadTtls ttls w)) i of None \<Rightarrow> cacheTtl e | Some t \<Rightarrow> t)"
  using fold_setCacheLocal_nth [OF assms, of e "\<lambda>index. elemAt vs (int index)"
      "numAt (fst (spreadTtls ttls w))" 0 "snd (spreadTtls ttls w)"]
  by (simp add: batchSetCache_unfold asyncMulti_def sent_def)

lemma enumerate_map_upt: "enumerate 0 (map g [0..<n]) = map (\<lambda>x. (x, g x)) [0..<n]"
  by (simp add: list_eq_iff_nth_eq nth_enumerate_eq)

text \<open>
  C5. A batch of 26 items, none cached, with a nominal time-to-live of 600 and a bound
  of 60 for empty results; the handler's result is falsy for the last item only, and every
  random draw is one half, which spreads 600 to 630 and leaves 60 as it is. The value of
  the last item goes to the local cache for 60, but its \<^verbatim>\<open>set\<close> command carries 630, the
  time-to-live of the first item: inside a chunk of 25 the commands read the
  time-to-live by the position in the chunk.
\<close>

theorem batchSetCache_chunk_ttl:
  "fst (batchProcess conf [0..<26] keyOf lastEmpty 600 True w0)
     = Inr (map (\<lambda>x. if x = 25 then Num 0 else Num 1) [0..<26])
   \<and> commands (snd (batchProcess conf [0..<26] keyOf lastEmpty 600 True w0))
     = [MULTI (map (\<lambda>x. SETEX (keyOf x) (Some (if x = 25 then ''0'' else ''1'')) (Some 630)) [0..<26])]
   \<and> localCache (snd (batchProcess conf [0..<26] keyOf lastEmpty 600 True w0)) (keyOf 25)
     = Some (Num 0, 60)"
proof -
  define f :: "nat \<Rightarrow> jsval" where "f = (\<lambda>x. if x = 25 then Num 0 else Num 1)"
  define ttls :: "real list" where
    "ttls = map (\<lambda>v. if truthy v then 600 else min 600 (processTtl conf)) (map f [0..<26])"
  define w' where "w' = batchSetCache conf (map keyOf [0..<26]) (map f [0..<26]) ttls w0"
  have h: "\<forall>x u. lastEmpty x u = (Inr (f x), u)"
    by (simp add: lastEmpty_def f_def)
  have chunk: "batchProcessChunk conf [0..<26] keyOf lastEmpty 600 True w0 = (Inr (map f [0..<26]), w')"
    using batchProcessChunk_all_missing [where skipCache = True and e = conf and ttl = 600
        and keyFn = keyOf and w = w0, OF h, of "[0..<26]"]
    by (simp add: w'_def ttls_def)
  have run: "batchProcess conf [0..<26] keyOf lastEmpty 600 True w0 = (Inr (map f [0..<26]), w')"
    by (rule batchProcess_one_chunk [OF _ _ chunk]) simp_all
  have ttls: "ttls = map (\<lambda>x. if x = 25 then 60 else 600) [0..<26]"
    by (simp add: ttls_def f_def conf_def)
  have half: "\<forall>n. randoms w0 n = 1 / 2" by (simp add: w0_def)
  have spread: "fst (spreadTtls ttls w0) = map (\<lambda>x. if x = 25 then 60 else 630) [0..<26]"
    unfolding spreadTtls_half [OF half] ttls by simp
  have nth: "\<And>x. x < 26 \<Longrightarrow> numAt (fst (spreadTtls ttls w0)) (x mod 25) = Some 630"
  proof -
    fix x :: nat assume "x < 26"
    have "x mod 25 < 25" by simp
    then have m: "x mod 25 < 26" "x mod 25 \<noteq> 25" by linarith+
    show "numAt (fst (spreadTtls ttls w0)) (x mod 25) = Some 630"
      by (simp add: spread numAt_def m)
  qed
  have last: "numAt (fst (spreadTtls ttls w0)) 25 = Some 60"
    by (simp add: spread numAt_def)
  have cmds: "commands w' =
      [MULTI (map (\<lambda>x. SETEX (keyOf x) (Some (if x = 25 then ''0'' else ''1'')) (Some 630)) [0..<26])]"
  proof -
    have "map (\<lambda>(i, k). SETEX k (JSON_stringify conf (elemAt (map f [0..<26]) (int i)))
                     (numAt (fst (spreadTtls ttls w0)) (i mod 25)))
              (enumerate 0 (map keyOf [0..<26]))
        = map (\<lambda>x. SETEX (keyOf x) (Some (if x = 25 then ''0'' else ''1'')) (Some 630)) [0..<26]"
      unfolding enumerate_map_upt map_map comp_def
    proof (rule map_cong [OF refl])
      fix x assume "x \<in> set [0..<26]"
      then have x: "x < 26" by simp
      have el: "elemAt (map f [0..<26]) (int x) = f x" using x by (simp add: elemAt_def)
      have str: "JSON_stringify conf (f x) = Some (if x = 25 then ''0'' else ''1'')"
        by (simp add: JSON_stringify_def f_def conf_def sampleStringify_def)
      show "(case (x, keyOf x) of (i, k) \<Rightarrow>
                SETEX k (JSON_stringify conf (elemAt (map f [0..<26]) (int i)))
                  (numAt (fst (spreadTtls ttls w0)) (i mod 25)))
          = SETEX (keyOf x) (Some (if x = 25 then ''0'' else ''1'')) (Some 630)"
        using nth [OF x] by (simp add: el str)
    qed
    then show ?thesis
      by (simp add: w'_def batchSetCache_commands w0_def)
  qed
  have dk: "distinct (map keyOf [0..<26])"
    by (simp add: distinct_map inj_on_def keyOf_inj)
  have loc: "localCache w' (keyOf 25) = Some (Num 0, 60)"
    using batchSetCache_local [OF dk, of 25 conf "map f [0..<26]" ttls w0] last
    by (simp add: w'_def elemAt_def f_def)
  show ?thesis
    using cmds loc by (simp add: run f_def)
qed

section \<open>Texts that do not parse\<close>

text \<open>
  C3, as the claim states it, fails: Redis holds the text \<^verbatim>\<open>oops\<close> for the key \<open>k\<close>, the
  text does not parse, and both remote reads fail with the \<open>SyntaxError\<close> instead of
  returning absent.
\<close>

theorem getCacheRemote_corrupt_counterexample:
  "map_of (remote wCorrupt) ''k'' = Some (''oops'', 600)
   \<and> jsonParse conf ''oops'' = None
   \<and> map_option fst (getCacheRemote conf ''k'' wCorrupt) = Some (Inl SyntaxError)
   \<and> fst (batchGetCache conf [''k''] wCorrupt) = Inl SyntaxError"
  by (simp add: getCacheRemote_def executeWithPendingPromise_def asyncGet_def reply_def sent_def
      batchGetCache_def getChunks_def chunkStep_def asyncMGet_def
      wCorrupt_def sample_defs)

lemma JSON_parse_error: "JSON_parse e v = Inl err \<Longrightarrow> err = SyntaxError"
  by (cases v) (auto split: option.splits)

lemma parseReplies_error: "parseReplies e vs = Inl err \<Longrightarrow> err = SyntaxError"
proof (induction vs)
  case Nil
  then show ?case by simp
next
  case (Cons v vs)
  then show ?case
    by (auto split: if_splits sum.splits dest: JSON_parse_error)
qed

lemma parseReplies_corrupt:
  assumes "reply w key = Str s" and "s \<noteq> []" and "jsonParse e s = None" and "key \<in> set keys"
  shows "parseReplies e (map (reply w) keys) = Inl SyntaxError"
  using assms(4)
proof (induction keys)
  case Nil
  then show ?case by simp
next
  case (Cons k keys)
  show ?case
  proof (cases "k = key")
    case True
    then show ?thesis using assms(1,2,3) by simp
  next
    case False
    then have "parseReplies e (map (reply w) keys) = Inl SyntaxError"
      using Cons by simp
    then show ?thesis
      by (auto split: sum.splits dest: JSON_parse_error)
  qed
qed

lemma batchGetChunks_corrupt:
  assumes "s \<noteq> []" and "jsonParse e s = None"
  shows "map_of (remote w) key = Some (s, t) \<Longrightarrow> key \<in> set (concat chunks) \<Longrightarrow>
         fst (batchGetChunks e chunks acc w) = Inl SyntaxError"
proof (induction chunks arbitrary: acc w)
  case Nil
  then show ?case by simp
next
  case (Cons c chunks)
  have rep: "reply w key = Str s" using Cons.prems(1) by (simp add: reply_def)
  show ?case
  proof (cases "parseReplies e (map (reply w) c)")
    case (Inl err)
    then have "err = SyntaxError" by (rule parseReplies_error)
    then show ?thesis using Inl by (simp add: asyncMGet_def)
  next
    case (Inr parsed)
    have "key \<notin> set c"
    proof
      assume "key \<in> set c"
      from parseReplies_corrupt [OF rep assms this] Inr show False by simp
    qed
    then have rest: "key \<in> set (concat chunks)" using Cons.prems(2) by simp
    have "map_of (remote (sent (MGET c) w)) key = Some (s, t)"
      using Cons.prems(1) by (simp add: sent_def)
    from Cons.IH [OF this rest] Inr show ?thesis
      by (simp add: asyncMGet_def)
  qed
qed

text \<open>
  C3, amended. When the text Redis holds for a key does not parse, \<open>getCacheRemote\<close> for
  that key (with no read of the key pending) fails with the \<open>SyntaxError\<close>; so does
  \<open>batchGetCache\<close> for any list of keys that has the key, when the text is not empty. Only
  the empty text is read as absent, and only by \<open>batchGetCache\<close>.
\<close>

theorem corrupt_text_is_rejected:
  assumes "map_of (remote w) key = Some (s, t)" and "jsonParse e s = None"
  shows "(pendingPromises w (''caching:get:'' @ key) = None \<longrightarrow>
            map_option fst (getCacheRemote e key w) = Some (Inl SyntaxError))
    \<and> (s \<noteq> [] \<and> key \<in> set keys \<longrightarrow> fst (batchGetCache e keys w) = Inl SyntaxError)
    \<and> (s = [] \<longrightarrow> fst (batchGetCache e [key] w) = Inr [Null])"
proof (intro conjI impI)
  assume "pendingPromises w (''caching:get:'' @ key) = None"
  then show "map_option fst (getCacheRemote e key w) = Some (Inl SyntaxError)"
    using assms
    by (simp add: getCacheRemote_def executeWithPendingPromise_def asyncGet_def reply_def sent_def
        Let_def)
next
  assume "s \<noteq> [] \<and> key \<in> set keys"
  then show "fst (batchGetCache e keys w) = Inl SyntaxError"
    using batchGetChunks_corrupt [OF _ assms(2) assms(1), of "chunksOf 100 keys" "[]"]
    by (simp add: batchGetCache_def getChunks_chunksOf concat_chunksOf)
next
  assume "s = []"
  then show "fst (batchGetCache e [key] w) = Inr [Null]"
    using assms(1)
    by (simp add: batchGetCache_def getChunks_single asyncMGet_def reply_def)
qed

text \<open>The text \<^verbatim>\<open>oops\<close>, and the empty text, for the key \<open>k\<close>.\<close>

theorem corrupt_text_is_rejected_witness:
  "map_of (remote wCorrupt) ''k'' = Some (''oops'', 600)
   \<and> jsonParse conf ''oops'' = None
   \<and> map_option fst (getCacheRemote conf ''k'' wCorrupt) = Some (Inl SyntaxError)
   \<and> fst (batchGetCache conf [''a'', ''k''] wCorrupt) = Inl SyntaxError
   \<and> map_of (remote wEmptyText) ''k'' = Some ([], 600)
   \<and> jsonParse conf [] = None
   \<and> map_option fst (getCacheRemote conf ''k'' wEmptyText) = Some (Inl SyntaxError)
   \<and> fst (batchGetCache conf [''k''] wEmptyText) = Inr [Null]"
proof -
  have a: "map_of (remote wCorrupt) ''k'' = Some (''oops'', 600)"
    by (simp add: wCorrupt_def w0_def)
  have b: "jsonParse conf ''oops'' = None"
    by (simp add: conf_def sampleParse_def)
  have c: "map_of (remote wEmptyText) ''k'' = Some ([], 600)"
    by (simp add: wEmptyText_def w0_def)
  have d: "jsonParse conf [] = None"
    by (simp add: conf_def sampleParse_def)
  have p: "pendingPromises wCorrupt (''caching:get:'' @ ''k'') = None"
    "pendingPromises wEmptyText (''caching:get:'' @ ''k'') = None"
    by (simp_all add: wCorrupt_def wEmptyText_def w0_def)
  from corrupt_text_is_rejected [OF a b, of "[''a'', ''k'']"]
    corrupt_text_is_rejected [OF c d, of "[''k'']"] a b c d p
  show ?thesis by simp
qed

end
